theory Spec2Isabelle
  imports Main "HOL-Library.Char_ord" "HOL-Library.List_Lexorder" "HOL-Library.Multiset"
begin

section \<open>JavaScript values reaching the handlers\<close>

text \<open>
  The request handlers of \<^verbatim>\<open>src/server.js\<close> receive values parsed from a JSON body.
  A string is a list of UTF-16 code units; the model covers the code units below 256
  (Basic Latin and Latin-1 Supplement), on which \<^verbatim>\<open>trim\<close> and \<^verbatim>\<open>toLowerCase\<close> are the
  functions given below. A Number inside a JSON value is represented by its decimal
  rendering (what \<^verbatim>\<open>Number.prototype.toString\<close> returns): the rendering and the
  truthiness are all that \<^verbatim>\<open>norm\<close> reads of it, and a Number is falsy exactly when it
  renders as \<^verbatim>\<open>0\<close> or \<^verbatim>\<open>NaN\<close>.
\<close>

datatype json =
    JNull
  | JBool bool
  | JNum string
  | JStr string
  | JArr "json list"
  | JObj "(string \<times> json) list"

text \<open>A field of the body is absent (\<^verbatim>\<open>undefined\<close>) or holds a JSON value.\<close>

type_synonym jsvalue = "json option"

text \<open>
  The result of \<^verbatim>\<open>Number(level)\<close>: either a Number for which \<^verbatim>\<open>Number.isInteger\<close>
  holds, given by its value, or any other Number (a fraction, \<^verbatim>\<open>NaN\<close>, an infinity).
\<close>

datatype jsnumber = Integral int | NonIntegral

datatype js_error = TypeError

fun truthy :: "jsvalue \<Rightarrow> bool" where
  "truthy None = False"
| "truthy (Some JNull) = False"
| "truthy (Some (JBool b)) = b"
| "truthy (Some (JNum r)) = (r \<noteq> ''0'' \<and> r \<noteq> ''NaN'')"
| "truthy (Some (JStr s)) = (s \<noteq> [])"
| "truthy (Some (JArr xs)) = True"
| "truthy (Some (JObj kvs)) = True"

text \<open>
  \<^verbatim>\<open>v.toString()\<close> on a value of a JSON body. An object made by \<^verbatim>\<open>JSON.parse\<close> has
  its keys as own properties, so a key \<^verbatim>\<open>toString\<close> shadows \<^verbatim>\<open>Object.prototype.toString\<close>
  with a value that is not callable, and the call throws. An array is joined with commas,
  \<^verbatim>\<open>null\<close> elements giving the empty string and the others their string conversion.
\<close>

fun toString :: "json \<Rightarrow> js_error + string"
  and join :: "json list \<Rightarrow> js_error + string"
  and element :: "json \<Rightarrow> js_error + string" where
  "toString JNull = Inl TypeError"
| "toString (JBool b) = Inr (if b then ''true'' else ''false'')"
| "toString (JNum r) = Inr r"
| "toString (JStr s) = Inr s"
| "toString (JArr xs) = join xs"
| "toString (JObj kvs) =
     (if ''toString'' \<in> set (map fst kvs) then Inl TypeError else Inr ''[object Object]'')"
| "join [] = Inr []"
| "join (x # xs) =
     (case element x of Inl e \<Rightarrow> Inl e
      | Inr s \<Rightarrow> (if xs = [] then Inr s
                 else (case join xs of Inl e \<Rightarrow> Inl e | Inr t \<Rightarrow> Inr (s @ '','' @ t))))"
| "element JNull = Inr []"
| "element (JBool b) = toString (JBool b)"
| "element (JNum r) = toString (JNum r)"
| "element (JStr s) = toString (JStr s)"
| "element (JArr xs) = join xs"
| "element (JObj kvs) = toString (JObj kvs)"

text \<open>White space and line terminators of ECMAScript among the code units below 256.\<close>

definition isWhiteSpace :: "char \<Rightarrow> bool" where
  "isWhiteSpace c \<longleftrightarrow>
     c \<in> set [CHR 0x09, CHR 0x0A, CHR 0x0B, CHR 0x0C, CHR 0x0D, CHR 0x20, CHR 0xA0]"

definition trim :: "string \<Rightarrow> string" where
  "trim s = rev (dropWhile isWhiteSpace (rev (dropWhile isWhiteSpace s)))"

text \<open>
  \<^verbatim>\<open>toLowerCase\<close> maps A..Z and the capital letters of Latin-1 (U+00C0..U+00DE without
  the multiplication sign U+00D7) to the code unit 32 above, and fixes the rest.
\<close>

definition lowerChar :: "char \<Rightarrow> char" where
  "lowerChar c =
     (let k = (of_char c :: nat)
      in if (65 \<le> k \<and> k \<le> 90) \<or> (192 \<le> k \<and> k \<le> 222 \<and> k \<noteq> 215)
         then char_of (k + 32) else c)"

definition toLowerCase :: "string \<Rightarrow> string" where
  "toLowerCase s = map lowerChar s"

text \<open>\<^verbatim>\<open>const norm = s => (s || '').toString().trim().toLowerCase();\<close>\<close>

definition norm :: "jsvalue \<Rightarrow> js_error + string" where
  "norm s =
     (case toString (if truthy s then the s else JStr []) of
        Inl e \<Rightarrow> Inl e
      | Inr t \<Rightarrow> Inr (toLowerCase (trim t)))"

text \<open>
  The values on which the conversion throws: an object with an own key \<^verbatim>\<open>toString\<close>,
  or an array that holds such a value.
\<close>

fun shadows_toString :: "json \<Rightarrow> bool" where
  "shadows_toString (JObj kvs) = (''toString'' \<in> set (map fst kvs))"
| "shadows_toString (JArr xs) = list_ex shadows_toString xs"
| "shadows_toString v = False"

section \<open>The level table\<close>

text \<open>
  The prompts are only handed out, never inspected; they are kept as UTF-8 bytes, the
  em dash of level 2 and the quotation marks of level 3 written out byte by byte.
\<close>

record level_def =
  level_id :: int
  prompt :: string
  answer :: string

definition LEVELS :: "level_def list" where
  "LEVELS =
   [\<lparr>level_id = 1, prompt = ''I speak without a mouth and hear without ears. What am I?'',
     answer = ''echo''\<rparr>,
    \<lparr>level_id = 2,
     prompt = ''Find the hidden word in: C R Y P T I C '' @ [CHR 0xE2, CHR 0x80, CHR 0x94]
              @ '' remove edges, read center.'',
     answer = ''rypti''\<rparr>,
    \<lparr>level_id = 3,
     prompt = ''An anagram of '' @ [CHR 0xE2, CHR 0x80, CHR 0x9C] @ ''LISTEN''
              @ [CHR 0xE2, CHR 0x80, CHR 0x9D] @ '' that is a verb.'',
     answer = ''silent''\<rparr>,
    \<lparr>level_id = 4, prompt = ''Binary 01101000 01110101 01101110 01110100'', answer = ''hunt''\<rparr>,
    \<lparr>level_id = 5, prompt = ''Clock puzzle: 3:15 angle smaller one?'', answer = ''7.5''\<rparr>,
    \<lparr>level_id = 6, prompt = ''Vigenere key=RING. Cipher: VYYMZ QN. Plain?'',
     answer = ''solve me''\<rparr>,
    \<lparr>level_id = 7, prompt = ''Acrostic of: Hidden Under Nightfall Trail'', answer = ''hunt''\<rparr>,
    \<lparr>level_id = 8, prompt = ''MD5 of answer is 5d41402abc4b2a76b9719d911017c592'',
     answer = ''hello''\<rparr>,
    \<lparr>level_id = 9, prompt = ''Roman: XIV + VI = ?'', answer = ''20''\<rparr>,
    \<lparr>level_id = 10, prompt = ''Final: keyword from levels 1,4,7 combined.'',
     answer = ''echohunthunt''\<rparr>]"

section \<open>The store\<close>

text \<open>
  The two tables of \<^verbatim>\<open>database.sqlite\<close>, each a list of rows in insertion order.
  \<^verbatim>\<open>is_solved\<close> is an INTEGER column, \<^verbatim>\<open>solved_at\<close> a nullable INTEGER column.
\<close>

record user_row =
  u_id :: string
  username :: string
  password_hash :: string
  created_at :: int

record progress_row =
  user_id :: string
  level :: int
  is_solved :: int
  solved_at :: "int option"

record store =
  users :: "user_row list"
  progress :: "progress_row list"

text \<open>\<^verbatim>\<open>req.session.user\<close>: absent, or the pair of id and username.\<close>

type_synonym session = "(string \<times> string) option"

text \<open>
  The error responses, named after the \<^verbatim>\<open>error\<close> field of their JSON body, and an
  exception that leaves a handler (which Express answers with status 500).
\<close>

datatype error =
    Unauthorized
  | Bad_level
  | Locked
  | Missing
  | Username_length
  | Password_length
  | Username_taken
  | Server_error
  | Uncaught js_error

text \<open>
  \<^verbatim>\<open>SELECT level, is_solved FROM progress WHERE user_id = ? ORDER BY level ASC\<close>
\<close>

definition select_progress :: "store \<Rightarrow> string \<Rightarrow> progress_row list" where
  "select_progress db uid = sort_key level (filter (\<lambda>p. user_id p = uid) (progress db))"

text \<open>
  \<^verbatim>\<open>Math.max(0, ...prog.filter(p => p.is_solved).map(p => p.level))\<close>
\<close>

definition highestSolved :: "progress_row list \<Rightarrow> int" where
  "highestSolved prog = fold max (map level (filter (\<lambda>p. is_solved p \<noteq> 0) prog)) 0"

section \<open>Reading a level\<close>

record level_view =
  lv_level :: int
  lv_prompt :: string
  lv_is_solved :: bool

text \<open>
  The handler of \<^verbatim>\<open>GET /api/level/:level\<close>, behind \<^verbatim>\<open>requireAuth\<close>, over a table of
  levels; \<open>n\<close> is \<^verbatim>\<open>Number(req.params.level)\<close>.
\<close>

definition getLevel_on :: "level_def list \<Rightarrow> store \<Rightarrow> session \<Rightarrow> jsnumber \<Rightarrow> error + level_view" where
  "getLevel_on levels db sess n =
     (case sess of
        None \<Rightarrow> Inl Unauthorized
      | Some (uid, uname) \<Rightarrow>
          (case n of
             NonIntegral \<Rightarrow> Inl Bad_level
           | Integral k \<Rightarrow>
               if k < 1 \<or> k > int (length levels) then Inl Bad_level
               else
                 let prog = select_progress db uid;
                     hs = highestSolved prog
                 in if k > hs + 1 then Inl Locked
                    else Inr \<lparr>lv_level = k,
                              lv_prompt = prompt (levels ! nat (k - 1)),
                              lv_is_solved =
                                (case find (\<lambda>p. level p = k) prog of
                                   None \<Rightarrow> False
                                 | Some p \<Rightarrow> is_solved p = 1)\<rparr>))"

definition getLevel :: "store \<Rightarrow> session \<Rightarrow> jsnumber \<Rightarrow> error + level_view" where
  "getLevel = getLevel_on LEVELS"

section \<open>Submitting an answer\<close>

text \<open>
  \<^verbatim>\<open>UPDATE progress SET is_solved = 1, solved_at = ? WHERE user_id = ? AND level = ?\<close>
\<close>

definition set_solved :: "store \<Rightarrow> int \<Rightarrow> string \<Rightarrow> int \<Rightarrow> store" where
  "set_solved db now uid k =
     db\<lparr>progress :=
          map (\<lambda>p. if user_id p = uid \<and> level p = k
                    then p\<lparr>is_solved := 1, solved_at := Some now\<rparr> else p)
              (progress db)\<rparr>"

text \<open>
  The handler of \<^verbatim>\<open>POST /api/answer\<close>, behind \<^verbatim>\<open>requireAuth\<close>; \<open>n\<close> is
  \<^verbatim>\<open>Number(level)\<close>, \<open>now\<close> is \<^verbatim>\<open>Date.now()\<close>. The answers are compared before the
  progress is read, so an exception of \<^verbatim>\<open>norm\<close> leaves the handler before the lock
  check.
\<close>

definition submitAnswer ::
  "store \<Rightarrow> session \<Rightarrow> jsnumber \<Rightarrow> jsvalue \<Rightarrow> int \<Rightarrow> (error + bool) \<times> store" where
  "submitAnswer db sess n ans now =
     (case sess of
        None \<Rightarrow> (Inl Unauthorized, db)
      | Some (uid, uname) \<Rightarrow>
          (case n of
             NonIntegral \<Rightarrow> (Inl Bad_level, db)
           | Integral k \<Rightarrow>
               if k < 1 \<or> k > int (length LEVELS) then (Inl Bad_level, db)
               else
                 let expected = answer (LEVELS ! nat (k - 1))
                 in (case norm ans of
                       Inl e \<Rightarrow> (Inl (Uncaught e), db)
                     | Inr a \<Rightarrow>
                         (case norm (Some (JStr expected)) of
                            Inl e \<Rightarrow> (Inl (Uncaught e), db)
                          | Inr b \<Rightarrow>
                              let correct = (a = b);
                                  prog = select_progress db uid;
                                  hs = highestSolved prog
                              in if k > hs + 1 then (Inl Locked, db)
                                 else if correct then
                                   (case find (\<lambda>p. user_id p = uid \<and> level p = k) (progress db) of
                                      None \<Rightarrow> (Inr correct, set_solved db now uid k)
                                    | Some already \<Rightarrow>
                                        if is_solved already = 0
                                        then (Inr correct, set_solved db now uid k)
                                        else (Inr correct, db))
                                 else (Inr correct, db)))))"

section \<open>Registration\<close>

text \<open>
  The constraint violations that the two INSERT statements can raise: a duplicate primary
  key, or a duplicate of the UNIQUE column \<^verbatim>\<open>username\<close>.
\<close>

datatype sqlite_error = SQLITE_CONSTRAINT_PRIMARYKEY | SQLITE_CONSTRAINT_UNIQUE

text \<open>
  \<^verbatim>\<open>INSERT INTO users (id, username, password_hash, created_at) VALUES (?, ?, ?, ?)\<close>,
  a statement of its own, committed when it returns. When both the id and the username are
  taken, the primary key is reported here; no theorem below depends on that choice.
\<close>

definition insert_user :: "store \<Rightarrow> user_row \<Rightarrow> sqlite_error + store" where
  "insert_user db u =
     (if u_id u \<in> set (map u_id (users db)) then Inl SQLITE_CONSTRAINT_PRIMARYKEY
      else if username u \<in> set (map username (users db)) then Inl SQLITE_CONSTRAINT_UNIQUE
      else Inr (db\<lparr>users := users db @ [u]\<rparr>))"

text \<open>\<^verbatim>\<open>INSERT INTO progress (user_id, level, is_solved) VALUES (?, ?, 0)\<close>\<close>

definition insert_progress :: "store \<Rightarrow> string \<Rightarrow> int \<Rightarrow> sqlite_error + store" where
  "insert_progress db uid i =
     (if (uid, i) \<in> set (map (\<lambda>p. (user_id p, level p)) (progress db))
      then Inl SQLITE_CONSTRAINT_PRIMARYKEY
      else Inr (db\<lparr>progress := progress db
                   @ [\<lparr>user_id = uid, level = i, is_solved = 0, solved_at = None\<rparr>]\<rparr>))"

text \<open>
  \<^verbatim>\<open>for (let i = 1; i <= LEVELS.length; i++) insert.run(uid, i);\<close> over the levels still
  to insert; the first exception ends the loop.
\<close>

fun seed_progress :: "store \<Rightarrow> string \<Rightarrow> int list \<Rightarrow> sqlite_error + store" where
  "seed_progress db uid [] = Inr db"
| "seed_progress db uid (i # rest) =
     (case insert_progress db uid i of
        Inl e \<Rightarrow> Inl e
      | Inr db' \<Rightarrow> seed_progress db' uid rest)"

text \<open>
  \<^verbatim>\<open>db.transaction(...)\<close>: the loop commits as a whole, or is rolled back and the
  exception is thrown again, the store being the one before the transaction.
\<close>

definition tx :: "store \<Rightarrow> string \<Rightarrow> sqlite_error + store" where
  "tx db uid = seed_progress db uid [1..int (length LEVELS)]"

text \<open>The \<^verbatim>\<open>catch\<close> clause of the registration handler.\<close>

definition register_catch :: "sqlite_error \<Rightarrow> error" where
  "register_catch e = (if e = SQLITE_CONSTRAINT_UNIQUE then Username_taken else Server_error)"

text \<open>
  The handler of \<^verbatim>\<open>POST /api/register\<close> for a body whose two fields are strings (or
  absent, read as the empty string); \<open>new_id\<close> is \<^verbatim>\<open>nanoid()\<close>, \<open>hash\<close> is
  \<^verbatim>\<open>await bcrypt.hash(password, 12)\<close>, \<open>now\<close> is \<^verbatim>\<open>Date.now()\<close>. The successful
  result is the pair stored in the session and sent back. The user row is inserted before
  the transaction and outside it: when the transaction throws, the row stays.
\<close>

definition register ::
  "store \<Rightarrow> string \<Rightarrow> string \<Rightarrow> string \<Rightarrow> string \<Rightarrow> int \<Rightarrow> (error + string \<times> string) \<times> store" where
  "register db uname password new_id hash now =
     (if uname = [] \<or> password = [] then (Inl Missing, db)
      else if length uname < 3 \<or> length uname > 24 then (Inl Username_length, db)
      else if length password < 6 then (Inl Password_length, db)
      else
        (case insert_user db \<lparr>u_id = new_id, username = uname, password_hash = hash,
                               created_at = now\<rparr> of
           Inl e \<Rightarrow> (Inl (register_catch e), db)
         | Inr db1 \<Rightarrow>
             (case tx db1 new_id of
                Inl e \<Rightarrow> (Inl (register_catch e), db1)
              | Inr db2 \<Rightarrow> (Inr (new_id, uname), db2))))"

section \<open>The leaderboard\<close>

record board_row =
  lb_username :: string
  solved_levels :: int
  tiebreak_ts :: "int option"

text \<open>The aggregates \<^verbatim>\<open>MAX\<close> and \<^verbatim>\<open>MIN\<close> skip NULL and are NULL on no value.\<close>

fun sql_max :: "int option list \<Rightarrow> int option" where
  "sql_max [] = None"
| "sql_max (None # xs) = sql_max xs"
| "sql_max (Some v # xs) = (case sql_max xs of None \<Rightarrow> Some v | Some w \<Rightarrow> Some (max v w))"

fun sql_min :: "int option list \<Rightarrow> int option" where
  "sql_min [] = None"
| "sql_min (None # xs) = sql_min xs"
| "sql_min (Some v # xs) = (case sql_min xs of None \<Rightarrow> Some v | Some w \<Rightarrow> Some (min v w))"

text \<open>\<^verbatim>\<open>COALESCE(x, 0)\<close>\<close>

definition coalesce0 :: "int option \<Rightarrow> int" where
  "coalesce0 x = (case x of None \<Rightarrow> 0 | Some v \<Rightarrow> v)"

text \<open>
  \<^verbatim>\<open>users u LEFT JOIN progress p ON p.user_id = u.id\<close>, the group of one user: its
  progress rows, or a single row of NULLs when there is none.
\<close>

definition left_join :: "store \<Rightarrow> user_row \<Rightarrow> progress_row option list" where
  "left_join db u =
     (case filter (\<lambda>p. user_id p = u_id u) (progress db) of
        [] \<Rightarrow> [None]
      | ps \<Rightarrow> map Some ps)"

text \<open>
  \<^verbatim>\<open>(SELECT COALESCE(MAX(level),0) FROM progress WHERE user_id = u.id AND is_solved = 1)\<close>
\<close>

definition max_solved_level :: "store \<Rightarrow> user_row \<Rightarrow> int" where
  "max_solved_level db u =
     coalesce0 (sql_max (map (\<lambda>p. Some (level p))
        (filter (\<lambda>p. user_id p = u_id u \<and> is_solved p = 1) (progress db))))"

text \<open>
  The three columns selected for one user:
  \<^verbatim>\<open>u.username\<close>,
  \<^verbatim>\<open>COALESCE(MAX(CASE WHEN p.is_solved = 1 THEN p.level END), 0) AS solved_levels\<close> and
  \<^verbatim>\<open>MIN(CASE WHEN p.is_solved = 1 AND p.level = (...) THEN p.solved_at END) AS tiebreak_ts\<close>.
\<close>

definition board_row_of :: "store \<Rightarrow> user_row \<Rightarrow> board_row" where
  "board_row_of db u =
     \<lparr>lb_username = username u,
      solved_levels =
        coalesce0 (sql_max (map (\<lambda>r. case r of None \<Rightarrow> None
                                      | Some p \<Rightarrow> if is_solved p = 1 then Some (level p) else None)
                                (left_join db u))),
      tiebreak_ts =
        sql_min (map (\<lambda>r. case r of None \<Rightarrow> None
                           | Some p \<Rightarrow> if is_solved p = 1 \<and> level p = max_solved_level db u
                                      then solved_at p else None)
                     (left_join db u))\<rparr>"

text \<open>
  \<^verbatim>\<open>ORDER BY solved_levels DESC, tiebreak_ts ASC NULLS LAST, u.username ASC\<close>: whether
  row \<open>a\<close> may stand before row \<open>b\<close>. Usernames compare code unit by code unit.
\<close>

fun ts_before :: "int option \<Rightarrow> int option \<Rightarrow> bool" where
  "ts_before (Some x) (Some y) = (x < y)"
| "ts_before (Some x) None = True"
| "ts_before None y = False"

definition board_le :: "board_row \<Rightarrow> board_row \<Rightarrow> bool" where
  "board_le a b \<longleftrightarrow>
     solved_levels a > solved_levels b
     \<or> (solved_levels a = solved_levels b
        \<and> (ts_before (tiebreak_ts a) (tiebreak_ts b)
           \<or> (tiebreak_ts a = tiebreak_ts b \<and> lb_username a \<le> lb_username b)))"

fun insert_by :: "('a \<Rightarrow> 'a \<Rightarrow> bool) \<Rightarrow> 'a \<Rightarrow> 'a list \<Rightarrow> 'a list" where
  "insert_by le x [] = [x]"
| "insert_by le x (y # ys) = (if le x y then x # y # ys else y # insert_by le x ys)"

definition order_by :: "('a \<Rightarrow> 'a \<Rightarrow> bool) \<Rightarrow> 'a list \<Rightarrow> 'a list" where
  "order_by le xs = foldr (insert_by le) xs []"

text \<open>
  The handler of \<^verbatim>\<open>GET /api/leaderboard\<close>: one group per user (\<^verbatim>\<open>GROUP BY u.id\<close>, the
  primary key), ordered, cut by \<^verbatim>\<open>LIMIT 100\<close>; the rows are sent as they are.
\<close>

definition leaderboard :: "store \<Rightarrow> board_row list" where
  "leaderboard db = take 100 (order_by board_le (map (board_row_of db) (users db)))"

section \<open>Sequences of requests\<close>

datatype request =
    Register string string string string int
  | GetLevel session jsnumber
  | SubmitAnswer session jsnumber jsvalue int
  | Leaderboard

text \<open>The store after a request; reading a level and the leaderboard write nothing.\<close>

fun step :: "store \<Rightarrow> request \<Rightarrow> store" where
  "step db (Register uname password new_id hash now) =
     snd (register db uname password new_id hash now)"
| "step db (GetLevel sess n) = db"
| "step db (SubmitAnswer sess n ans now) = snd (submitAnswer db sess n ans now)"
| "step db Leaderboard = db"

definition run :: "store \<Rightarrow> request list \<Rightarrow> store" where
  "run db reqs = foldl step db reqs"

text \<open>The constraints that the schema declares and SQLite enforces.\<close>

definition users_unique :: "store \<Rightarrow> bool" where
  "users_unique db \<longleftrightarrow> distinct (map u_id (users db)) \<and> distinct (map username (users db))"

definition progress_unique :: "store \<Rightarrow> bool" where
  "progress_unique db \<longleftrightarrow> distinct (map (\<lambda>p. (user_id p, level p)) (progress db))"

definition progress_references_users :: "store \<Rightarrow> bool" where
  "progress_references_users db \<longleftrightarrow>
     (\<forall>p \<in> set (progress db). user_id p \<in> set (map u_id (users db)))"

text \<open>
  What the handlers keep besides: every user has a row for each level and for nothing
  else, \<^verbatim>\<open>is_solved\<close> is 0 or 1, and a solved row carries its time.
\<close>

definition seeded :: "store \<Rightarrow> bool" where
  "seeded db \<longleftrightarrow>
     (\<forall>u \<in> set (users db). \<forall>i \<in> {1..int (length LEVELS)}.
        (u_id u, i) \<in> set (map (\<lambda>p. (user_id p, level p)) (progress db)))
     \<and> (\<forall>p \<in> set (progress db). 1 \<le> level p \<and> level p \<le> int (length LEVELS))"

definition flags_ok :: "store \<Rightarrow> bool" where
  "flags_ok db \<longleftrightarrow>
     (\<forall>p \<in> set (progress db).
        (is_solved p = 0 \<or> is_solved p = 1) \<and> (is_solved p = 1 \<longrightarrow> solved_at p \<noteq> None))"

definition store_ok :: "store \<Rightarrow> bool" where
  "store_ok db \<longleftrightarrow>
     users_unique db \<and> progress_unique db \<and> progress_references_users db
     \<and> seeded db \<and> flags_ok db"

definition empty_store :: store where
  "empty_store = \<lparr>users = [], progress = []\<rparr>"

text \<open>
  The progress table of \<open>db'\<close> continues that of \<open>db\<close>: every row of \<open>db\<close> is still
  there, at its place, for the same user and level, and still solved if it was.
\<close>

definition keeps_solved :: "store \<Rightarrow> store \<Rightarrow> bool" where
  "keeps_solved db db' \<longleftrightarrow>
     length (progress db) \<le> length (progress db')
     \<and> (\<forall>i < length (progress db).
           user_id (progress db' ! i) = user_id (progress db ! i)
           \<and> level (progress db' ! i) = level (progress db ! i)
           \<and> (is_solved (progress db ! i) \<noteq> 0 \<longrightarrow> is_solved (progress db' ! i) \<noteq> 0))"

section \<open>Example stores\<close>

text \<open>The store after \<^verbatim>\<open>amy\<close> has registered as its first user (see \<open>register_amy\<close>).\<close>

definition amy_store :: store where
  "amy_store =
     \<lparr>users = [\<lparr>u_id = ''u1'', username = ''amy'', password_hash = ''h'', created_at = 0\<rparr>],
      progress = map (\<lambda>i. \<lparr>user_id = ''u1'', level = i, is_solved = 0, solved_at = None\<rparr>)
                     [1, 2, 3, 4, 5, 6, 7, 8, 9, 10]\<rparr>"

definition amy :: session where
  "amy = Some (''u1'', ''amy'')"

text \<open>The body \<^verbatim>\<open>{"toString": 1}\<close> as an answer.\<close>

definition shadowing_answer :: jsvalue where
  "shadowing_answer = Some (JObj [(''toString'', JNum ''1'')])"

text \<open>The same store once amy has solved level 1 at time 7.\<close>

definition amy_store_1 :: store where
  "amy_store_1 =
     \<lparr>users = [\<lparr>u_id = ''u1'', username = ''amy'', password_hash = ''h'', created_at = 0\<rparr>],
      progress = \<lparr>user_id = ''u1'', level = 1, is_solved = 1, solved_at = Some 7\<rparr>
                 # map (\<lambda>i. \<lparr>user_id = ''u1'', level = i, is_solved = 0, solved_at = None\<rparr>)
                       [2, 3, 4, 5, 6, 7, 8, 9, 10]\<rparr>"

text \<open>The store after \<^verbatim>\<open>bob\<close> has registered second.\<close>

definition amy_bob_store :: store where
  "amy_bob_store =
     \<lparr>users = [\<lparr>u_id = ''u1'', username = ''amy'', password_hash = ''h'', created_at = 0\<rparr>,
               \<lparr>u_id = ''u2'', username = ''bob'', password_hash = ''g'', created_at = 3\<rparr>],
      progress = map (\<lambda>i. \<lparr>user_id = ''u1'', level = i, is_solved = 0, solved_at = None\<rparr>)
                     [1, 2, 3, 4, 5, 6, 7, 8, 9, 10]
               @ map (\<lambda>i. \<lparr>user_id = ''u2'', level = i, is_solved = 0, solved_at = None\<rparr>)
                     [1, 2, 3, 4, 5, 6, 7, 8, 9, 10]\<rparr>"

text \<open>
  A store that breaks the foreign key of \<^verbatim>\<open>progress\<close>: a progress row of a user that
  does not exist.
\<close>

definition orphan_store :: store where
  "orphan_store =
     \<lparr>users = [],
      progress = [\<lparr>user_id = ''u2'', level = 3, is_solved = 0, solved_at = None\<rparr>]\<rparr>"

text \<open>
  Requests of amy once she has solved level 1: a wrong answer for level 2, a read, the
  leaderboard, the right answer for level 2, a wrong answer for level 1.
\<close>

definition amy_requests :: "request list" where
  "amy_requests =
     [SubmitAnswer amy (Integral 2) (Some (JStr ''echo'')) 8,
      GetLevel amy (Integral 2),
      Leaderboard,
      SubmitAnswer amy (Integral 2) (Some (JStr ''Rypti'')) 9,
      SubmitAnswer amy (Integral 1) (Some (JStr ''nonsense'')) 10]"

text \<open>
  Four users: alice (A) and bob (B) have solved levels 1 to 3, alice last at time 10 and
  bob last at time 5; zara (C) and amy (D) have solved nothing.
\<close>

definition board_store :: store where
  "board_store =
     \<lparr>users = [\<lparr>u_id = ''a'', username = ''alice'', password_hash = ''h'', created_at = 0\<rparr>,
               \<lparr>u_id = ''b'', username = ''bob'', password_hash = ''h'', created_at = 1\<rparr>,
               \<lparr>u_id = ''c'', username = ''zara'', password_hash = ''h'', created_at = 2\<rparr>,
               \<lparr>u_id = ''d'', username = ''amy'', password_hash = ''h'', created_at = 3\<rparr>],
      progress =
        map (\<lambda>(i, t). \<lparr>user_id = ''a'', level = i, is_solved = 1, solved_at = Some t\<rparr>)
            [(1, 8), (2, 9), (3, 10)]
        @ map (\<lambda>i. \<lparr>user_id = ''a'', level = i, is_solved = 0, solved_at = None\<rparr>)
              [4, 5, 6, 7, 8, 9, 10]
        @ map (\<lambda>(i, t). \<lparr>user_id = ''b'', level = i, is_solved = 1, solved_at = Some t\<rparr>)
              [(1, 3), (2, 4), (3, 5)]
        @ map (\<lambda>i. \<lparr>user_id = ''b'', level = i, is_solved = 0, solved_at = None\<rparr>)
              [4, 5, 6, 7, 8, 9, 10]
        @ map (\<lambda>i. \<lparr>user_id = ''c'', level = i, is_solved = 0, solved_at = None\<rparr>)
              [1, 2, 3, 4, 5, 6, 7, 8, 9, 10]
        @ map (\<lambda>i. \<lparr>user_id = ''d'', level = i, is_solved = 0, solved_at = None\<rparr>)
              [1, 2, 3, 4, 5, 6, 7, 8, 9, 10]\<rparr>"

section \<open>The gate of the levels\<close>

lemma length_LEVELS: "length LEVELS = 10"
  by (simp add: LEVELS_def)

lemma register_amy:
  "register empty_store ''amy'' ''secret'' ''u1'' ''h'' 0 = (Inr (''u1'', ''amy''), amy_store)"
  by code_simp

lemma highestSolved_nonneg: "0 \<le> highestSolved prog"
proof -
  have "a \<le> fold max xs a" for xs and a :: int
    by (induction xs arbitrary: a) (auto intro: order_trans[OF max.cobounded2])
  then show ?thesis by (simp add: highestSolved_def)
qed

lemma norm_expected: "norm (Some (JStr e)) = Inr (toLowerCase (trim e))"
  by (simp add: norm_def trim_def toLowerCase_def)

text \<open>
  Reading a level is refused as a bad level exactly for a number that is not an integer
  of 1..N, and as locked exactly above the highest solved level plus one.
\<close>

lemma getLevel_bad_level_iff:
  "getLevel db (Some s) n = Inl Bad_level
   \<longleftrightarrow> \<not> (\<exists>k. n = Integral k \<and> 1 \<le> k \<and> k \<le> int (length LEVELS))"
  by (cases s; cases n) (auto simp: getLevel_def getLevel_on_def Let_def)

lemma getLevel_locked_iff:
  "1 \<le> k \<Longrightarrow> k \<le> int (length LEVELS) \<Longrightarrow>
   getLevel db (Some (uid, un)) (Integral k) = Inl Locked
   \<longleftrightarrow> k > highestSolved (select_progress db uid) + 1"
  by (auto simp: getLevel_def getLevel_on_def Let_def)

text \<open>
  A submission is refused as a bad level under the same condition; it is refused as locked
  under the same condition too whenever the conversion of the answer does not throw.
\<close>

lemma submitAnswer_bad_level_iff:
  "fst (submitAnswer db (Some s) n ans now) = Inl Bad_level
   \<longleftrightarrow> \<not> (\<exists>k. n = Integral k \<and> 1 \<le> k \<and> k \<le> int (length LEVELS))"
  by (cases s; cases n)
     (auto simp: submitAnswer_def Let_def norm_expected split: sum.splits option.splits)

lemma submitAnswer_locked_iff:
  "1 \<le> k \<Longrightarrow> k \<le> int (length LEVELS) \<Longrightarrow> norm ans = Inr a \<Longrightarrow>
   fst (submitAnswer db (Some (uid, un)) (Integral k) ans now) = Inl Locked
   \<longleftrightarrow> k > highestSolved (select_progress db uid) + 1"
  by (auto simp: submitAnswer_def Let_def norm_expected split: sum.splits option.splits)

text \<open>Level 1 is never answered as locked.\<close>

lemma level_one_unlocked:
  "getLevel db (Some (uid, un)) (Integral 1) \<noteq> Inl Locked"
  "fst (submitAnswer db (Some (uid, un)) (Integral 1) ans now) \<noteq> Inl Locked"
proof -
  have one: "(1::int) \<le> 1" "1 \<le> int (length LEVELS)"
    by (simp_all add: length_LEVELS)
  have open_1: "\<not> 1 > highestSolved (select_progress db uid) + 1"
    using highestSolved_nonneg [of "select_progress db uid"] by simp
  with getLevel_locked_iff [OF one, of db uid un]
  show "getLevel db (Some (uid, un)) (Integral 1) \<noteq> Inl Locked"
    by simp
  show "fst (submitAnswer db (Some (uid, un)) (Integral 1) ans now) \<noteq> Inl Locked"
  proof (cases "norm ans")
    case (Inl e)
    with one show ?thesis by (simp add: submitAnswer_def)
  next
    case (Inr a)
    with submitAnswer_locked_iff [OF one Inr, of db uid un now] open_1 show ?thesis
      by simp
  qed
qed

text \<open>
  Claim C1, at the input where the code departs from it. For amy, who has solved nothing,
  level 2 is locked: reading it answers \<open>Locked\<close>, and so does submitting a string for it.
  Submitting the object \<^verbatim>\<open>{"toString": 1}\<close> for level 2 does not answer \<open>Locked\<close>: the
  handler normalises the answer before it reads the progress, the call of \<^verbatim>\<open>toString\<close>
  throws a TypeError, and the exception leaves the handler.
\<close>

theorem submitAnswer_locked_level_throws:
  "highestSolved (select_progress amy_store ''u1'') = 0
   \<and> getLevel amy_store amy (Integral 2) = Inl Locked
   \<and> fst (submitAnswer amy_store amy (Integral 2) (Some (JStr ''rypti'')) 7) = Inl Locked
   \<and> fst (submitAnswer amy_store amy (Integral 2) shadowing_answer 7) = Inl (Uncaught TypeError)"
  by code_simp

section \<open>Normalising an answer\<close>

text \<open>A falsy answer (absent, null, false, zero, the empty string) is read as the empty string.\<close>

lemma norm_falsy: "\<not> truthy v \<Longrightarrow> norm v = Inr []"
  by (simp add: norm_def trim_def toLowerCase_def)

text \<open>Strings, numbers and booleans are always converted.\<close>

lemma norm_primitive:
  "\<exists>t. norm (Some (JStr s)) = Inr t"
  "\<exists>t. norm (Some (JNum r)) = Inr t"
  "\<exists>t. norm (Some (JBool b)) = Inr t"
  "\<exists>t. norm (Some JNull) = Inr t"
  "\<exists>t. norm None = Inr t"
  by (simp_all add: norm_def)

text \<open>The conversion throws on exactly those values, and \<^verbatim>\<open>norm\<close> with it.\<close>

lemma toString_throws_iff:
  "v \<noteq> JNull \<Longrightarrow> toString v = Inl TypeError \<longleftrightarrow> shadows_toString v"
  "join xs = Inl TypeError \<longleftrightarrow> list_ex shadows_toString xs"
  "element v = Inl TypeError \<longleftrightarrow> shadows_toString v"
proof (induction v and xs and v rule: toString_join_element.induct)
  case (8 x xs)
  show ?case
  proof (cases "element x")
    case (Inl e)
    then have "element x = Inl TypeError" by (cases e) simp
    with 8(1) Inl show ?thesis by simp
  next
    case (Inr s)
    with 8(1) have x: "\<not> shadows_toString x" by simp
    show ?thesis
    proof (cases "xs = []")
      case True
      with Inr x show ?thesis by simp
    next
      case False
      from 8(2) [OF Inr False] have "join xs = Inl TypeError \<longleftrightarrow> list_ex shadows_toString xs" .
      moreover have "join xs = Inl TypeError \<longleftrightarrow> (\<exists>e. join xs = Inl e)"
        by (metis js_error.exhaust)
      ultimately show ?thesis
        using Inr x False by (auto split: sum.splits)
    qed
  qed
qed simp_all

lemma norm_throws_iff:
  "norm v = Inl TypeError \<longleftrightarrow> (\<exists>w. v = Some w \<and> shadows_toString w)"
proof (cases "truthy v")
  case False
  then have "norm v = Inr []" by (rule norm_falsy)
  moreover from False have "\<not> (\<exists>w. v = Some w \<and> shadows_toString w)"
    by (cases v rule: truthy.cases) auto
  ultimately show ?thesis by simp
next
  case True
  then obtain w where w: "v = Some w" "w \<noteq> JNull"
    by (cases v rule: truthy.cases) auto
  from toString_throws_iff(1) [OF w(2)]
  have "toString w = Inl TypeError \<longleftrightarrow> shadows_toString w" .
  moreover have "norm v = Inl TypeError \<longleftrightarrow> toString w = Inl TypeError"
    using True w by (auto simp: norm_def split: sum.splits)
  ultimately show ?thesis using w by simp
qed

text \<open>
  Claim C10, at the input where the code departs from it. The object \<^verbatim>\<open>{"toString": 1}\<close>
  is truthy, its own property \<^verbatim>\<open>toString\<close> is not a function, so \<^verbatim>\<open>norm\<close> throws a
  TypeError; submitted for level 1, which is unlocked for amy, it makes the handler throw
  instead of answering \<^verbatim>\<open>correct = false\<close>.
\<close>

theorem norm_throws_on_shadowed_toString:
  "norm shadowing_answer = Inl TypeError
   \<and> submitAnswer amy_store amy (Integral 1) shadowing_answer 7
       = (Inl (Uncaught TypeError), amy_store)"
  by code_simp

section \<open>Matching an answer\<close>












section \<open>The effect of a submission\<close>

lemma set_select_progress:
  "set (select_progress db uid) = {p \<in> set (progress db). user_id p = uid}"
  by (auto simp: select_progress_def)

lemma fold_max_Max: "fold max xs (a::int) = Max (insert a (set xs))"
  using Max.set_eq_fold [of a xs] by simp

lemma highestSolved_ge_iff:
  "k \<le> highestSolved prog \<longleftrightarrow> k \<le> 0 \<or> (\<exists>p \<in> set prog. is_solved p \<noteq> 0 \<and> k \<le> level p)"
  unfolding highestSolved_def fold_max_Max
  by (subst Max_ge_iff) auto

lemma highestSolved_mono:
  assumes "\<And>p. p \<in> set prog \<Longrightarrow> is_solved p \<noteq> 0 \<Longrightarrow>
             \<exists>q \<in> set prog'. is_solved q \<noteq> 0 \<and> level q = level p"
  shows "highestSolved prog \<le> highestSolved prog'"
proof -
  have "highestSolved prog \<le> 0 \<or> (\<exists>p \<in> set prog. is_solved p \<noteq> 0 \<and> highestSolved prog \<le> level p)"
    using highestSolved_ge_iff [of "highestSolved prog" prog] by simp
  then show ?thesis
  proof
    assume "highestSolved prog \<le> 0"
    then show ?thesis by (simp add: highestSolved_ge_iff)
  next
    assume "\<exists>p \<in> set prog. is_solved p \<noteq> 0 \<and> highestSolved prog \<le> level p"
    then obtain p where p: "p \<in> set prog" "is_solved p \<noteq> 0" "highestSolved prog \<le> level p"
      by blast
    from assms [OF p(1,2)] obtain q where "q \<in> set prog'" "is_solved q \<noteq> 0" "level q = level p"
      by blast
    with p(3) show ?thesis
      unfolding highestSolved_ge_iff [of _ prog'] by (metis)
  qed
qed

lemma find_None_set_solved:
  assumes "find (\<lambda>p. user_id p = uid \<and> level p = k) (progress db) = None"
  shows "set_solved db now uid k = db"
proof -
  have "map (\<lambda>p. if user_id p = uid \<and> level p = k
                  then p\<lparr>is_solved := 1, solved_at := Some now\<rparr> else p) (progress db)
        = progress db"
    by (rule map_idI) (use assms in \<open>auto simp: find_None_iff\<close>)
  then show ?thesis by (simp add: set_solved_def)
qed

lemma set_solved_users: "users (set_solved db now uid k) = users db"
  by (simp add: set_solved_def)

lemma progress_set_solved:
  "progress (set_solved db now uid k) =
     map (\<lambda>p. if user_id p = uid \<and> level p = k
               then p\<lparr>is_solved := 1, solved_at := Some now\<rparr> else p) (progress db)"
  by (simp add: set_solved_def)

lemma set_solved_rows:
  assumes "p \<in> set (progress (set_solved db now uid k))" and "user_id p = uid" and "level p = k"
  shows "is_solved p = 1 \<and> solved_at p = Some now"
proof -
  from assms(1) obtain q where q: "q \<in> set (progress db)"
      "p = (if user_id q = uid \<and> level q = k
            then q\<lparr>is_solved := 1, solved_at := Some now\<rparr> else q)"
    unfolding progress_set_solved set_map by (rule imageE)
  show ?thesis
  proof (cases "user_id q = uid \<and> level q = k")
    case True
    with q(2) show ?thesis by simp
  next
    case False
    with q(2) assms(2,3) show ?thesis by simp
  qed
qed

lemma set_solved_keeps_row:
  assumes "p \<in> set (progress db)"
  shows "\<exists>q \<in> set (progress (set_solved db now uid k)).
      user_id q = user_id p \<and> level q = level p \<and> (is_solved p \<noteq> 0 \<longrightarrow> is_solved q \<noteq> 0)"
proof -
  let ?f = "\<lambda>p. if user_id p = uid \<and> level p = k
                 then p\<lparr>is_solved := 1, solved_at := Some now\<rparr> else p"
  have "?f p \<in> set (progress (set_solved db now uid k))"
    unfolding progress_set_solved set_map using assms by (rule imageI)
  moreover have "user_id (?f p) = user_id p \<and> level (?f p) = level p
      \<and> (is_solved p \<noteq> 0 \<longrightarrow> is_solved (?f p) \<noteq> 0)"
    by simp
  ultimately show ?thesis by blast
qed

lemma submitAnswer_correct:
  assumes "1 \<le> k" "k \<le> int (length LEVELS)"
    and "k \<le> highestSolved (select_progress db uid) + 1"
    and "norm ans = norm (Some (JStr (answer (LEVELS ! nat (k - 1)))))"
  shows "submitAnswer db (Some (uid, un)) (Integral k) ans now =
     (Inr True,
      case find (\<lambda>p. user_id p = uid \<and> level p = k) (progress db) of
        None \<Rightarrow> set_solved db now uid k
      | Some already \<Rightarrow> if is_solved already = 0 then set_solved db now uid k else db)"
proof -
  have na: "norm ans = Inr (toLowerCase (trim (answer (LEVELS ! nat (k - 1)))))"
    using assms(4) by (simp only: norm_expected)
  have range: "\<not> (k < 1 \<or> k > int (length LEVELS))" "\<not> k > highestSolved (select_progress db uid) + 1"
    using assms(1-3) by auto
  show ?thesis
    unfolding submitAnswer_def
    by (simp only: option.case prod.case jsnumber.case range if_False Let_def na norm_expected
          sum.case refl if_True) (simp split: option.split)
qed

lemma submitAnswer_incorrect:
  assumes "1 \<le> k" "k \<le> int (length LEVELS)"
    and "k \<le> highestSolved (select_progress db uid) + 1"
    and "norm ans = Inr a" "norm ans \<noteq> norm (Some (JStr (answer (LEVELS ! nat (k - 1)))))"
  shows "submitAnswer db (Some (uid, un)) (Integral k) ans now = (Inr False, db)"
proof -
  have ne: "a \<noteq> toLowerCase (trim (answer (LEVELS ! nat (k - 1))))"
    using assms(4,5) by (simp only: norm_expected) simp
  have range: "\<not> (k < 1 \<or> k > int (length LEVELS))" "\<not> k > highestSolved (select_progress db uid) + 1"
    using assms(1-3) by auto
  show ?thesis
    unfolding submitAnswer_def
    by (simp only: option.case prod.case jsnumber.case range if_False Let_def assms(4) norm_expected
          sum.case ne)
qed

lemma find_SomeD: "find P xs = Some x \<Longrightarrow> x \<in> set xs \<and> P x"
  by (induction xs) (auto split: if_splits)

text \<open>
  Claim C5. For a valid, unlocked level whose record exists and is unsolved, a submission
  whose canonical form equals that of the expected answer is answered \<^verbatim>\<open>correct = true\<close>;
  afterwards the record of the user for that level exists, has \<^verbatim>\<open>is_solved = 1\<close> and
  \<^verbatim>\<open>solved_at\<close> set to the time of the request, and the highest solved level of the user
  is at least that level (in particular when it was the highest solved level plus one).
\<close>

theorem submitAnswer_correct_solves:
  assumes "1 \<le> k" and "k \<le> int (length LEVELS)"
    and "k \<le> highestSolved (select_progress db uid) + 1"
    and "find (\<lambda>p. user_id p = uid \<and> level p = k) (progress db) = Some p0"
    and "is_solved p0 = 0"
    and "norm ans = norm (Some (JStr (answer (LEVELS ! nat (k - 1)))))"
  shows "fst (submitAnswer db (Some (uid, un)) (Integral k) ans now) = Inr True
    \<and> (\<exists>p \<in> set (progress (snd (submitAnswer db (Some (uid, un)) (Integral k) ans now))).
          user_id p = uid \<and> level p = k)
    \<and> (\<forall>p \<in> set (progress (snd (submitAnswer db (Some (uid, un)) (Integral k) ans now))).
          user_id p = uid \<and> level p = k \<longrightarrow> is_solved p = 1 \<and> solved_at p = Some now)
    \<and> k \<le> highestSolved
             (select_progress (snd (submitAnswer db (Some (uid, un)) (Integral k) ans now)) uid)"
proof -
  let ?db' = "set_solved db now uid k"
  have res: "submitAnswer db (Some (uid, un)) (Integral k) ans now = (Inr True, ?db')"
    using submitAnswer_correct [OF assms(1,2,3,6)] assms(4,5) by simp
  have "p0 \<in> set (progress db)" "user_id p0 = uid" "level p0 = k"
    using assms(4) by (auto dest: find_SomeD)
  with set_solved_keeps_row [of p0 db now uid k]
  obtain q where q: "q \<in> set (progress ?db')" "user_id q = uid" "level q = k"
    by auto
  have solved: "is_solved p = 1 \<and> solved_at p = Some now"
    if "p \<in> set (progress ?db')" "user_id p = uid" "level p = k" for p
    using that by (rule set_solved_rows)
  from q solved have "is_solved q \<noteq> 0" by simp
  with q have "k \<le> highestSolved (select_progress ?db' uid)"
    unfolding highestSolved_ge_iff set_select_progress by auto
  with q solved show ?thesis
    unfolding res by auto
qed

text \<open>Amy, who has solved nothing, submits \<^verbatim>\<open>echo\<close> for level 1 at time 7.\<close>

theorem submitAnswer_correct_solves_witness:
  "fst (submitAnswer amy_store amy (Integral 1) (Some (JStr ''echo'')) 7) = Inr True
   \<and> highestSolved (select_progress amy_store ''u1'') = 0
   \<and> 1 \<le> highestSolved
         (select_progress (snd (submitAnswer amy_store (Some (''u1'', ''amy'')) (Integral 1) (Some (JStr ''echo'')) 7)) ''u1'')
   \<and> progress (snd (submitAnswer amy_store amy (Integral 1) (Some (JStr ''echo'')) 7)) ! 0
       = \<lparr>user_id = ''u1'', level = 1, is_solved = 1, solved_at = Some 7\<rparr>"
proof -
  have a: "(1::int) \<le> 1" "1 \<le> int (length LEVELS)"
      "1 \<le> highestSolved (select_progress amy_store ''u1'') + 1"
    by (simp_all add: length_LEVELS highestSolved_ge_iff)
  have b: "find (\<lambda>p. user_id p = ''u1'' \<and> level p = 1) (progress amy_store)
           = Some \<lparr>user_id = ''u1'', level = 1, is_solved = 0, solved_at = None\<rparr>"
      "is_solved \<lparr>user_id = ''u1'', level = 1, is_solved = 0, solved_at = None\<rparr> = 0"
    by (simp_all add: amy_store_def)
  have c: "norm (Some (JStr ''echo'')) = norm (Some (JStr (answer (LEVELS ! nat (1 - 1)))))"
    by (simp add: LEVELS_def)
  have d: "highestSolved (select_progress amy_store ''u1'') = 0"
      "progress (snd (submitAnswer amy_store amy (Integral 1) (Some (JStr ''echo'')) 7)) ! 0
       = \<lparr>user_id = ''u1'', level = 1, is_solved = 1, solved_at = Some 7\<rparr>"
      "fst (submitAnswer amy_store amy (Integral 1) (Some (JStr ''echo'')) 7) = Inr True"
    by code_simp+
  from submitAnswer_correct_solves [OF a b c, of "''amy''" 7] d
  show ?thesis by simp
qed

lemma submitAnswer_users: "users (snd (submitAnswer db sess n ans now)) = users db"
  by (auto simp: submitAnswer_def Let_def set_solved_users
           split: option.splits jsnumber.splits sum.splits prod.splits)

lemma submitAnswer_changed:
  assumes changed: "snd (submitAnswer db sess n ans now) \<noteq> db"
  shows "\<exists>uid un k. sess = Some (uid, un) \<and> n = Integral k
           \<and> k \<le> highestSolved (select_progress db uid) + 1
           \<and> (\<exists>p \<in> set (progress db). user_id p = uid \<and> level p = k \<and> is_solved p = 0)
           \<and> submitAnswer db sess n ans now = (Inr True, set_solved db now uid k)"
proof -
  from changed obtain uid un k where sess: "sess = Some (uid, un)" and n: "n = Integral k"
    by (cases sess; cases n) (auto simp: submitAnswer_def)
  from changed have range: "1 \<le> k" "k \<le> int (length LEVELS)"
    unfolding sess n by (auto simp: submitAnswer_def split: if_splits)
  from changed obtain a where a: "norm ans = Inr a"
    unfolding sess n using range by (cases "norm ans") (auto simp: submitAnswer_def)
  from changed have unlocked: "k \<le> highestSolved (select_progress db uid) + 1"
    unfolding sess n using range a
    by (auto simp: submitAnswer_def Let_def norm_expected split: if_splits)
  have correct: "norm ans = norm (Some (JStr (answer (LEVELS ! nat (k - 1)))))"
  proof (rule ccontr)
    assume "norm ans \<noteq> norm (Some (JStr (answer (LEVELS ! nat (k - 1)))))"
    then have "submitAnswer db (Some (uid, un)) (Integral k) ans now = (Inr False, db)"
      by (rule submitAnswer_incorrect [OF range unlocked a])
    with changed show False
      unfolding sess n by simp
  qed
  note res = submitAnswer_correct [OF range unlocked correct, of un now]
  from changed res obtain p0 where p0:
      "find (\<lambda>p. user_id p = uid \<and> level p = k) (progress db) = Some p0" "is_solved p0 = 0"
    unfolding sess n
    by (cases "find (\<lambda>p. user_id p = uid \<and> level p = k) (progress db)")
       (auto simp: find_None_set_solved split: if_splits)
  then have row: "\<exists>p \<in> set (progress db). user_id p = uid \<and> level p = k \<and> is_solved p = 0"
    by (auto dest: find_SomeD)
  from res p0 have "submitAnswer db sess n ans now = (Inr True, set_solved db now uid k)"
    unfolding sess n by simp
  with sess n unlocked row show ?thesis
    by blast
qed

text \<open>
  Claim C6. A submission never touches the users. If it changes the store at all, it was
  answered \<^verbatim>\<open>correct = true\<close> for an unlocked level with an unsolved record of the user,
  and the new progress table is the old one with only the records of that user and level
  set to solved at the time of the request. A correct answer for a level whose record is
  already solved is answered \<^verbatim>\<open>correct = true\<close> and leaves the store (hence
  \<^verbatim>\<open>solved_at\<close>) as it was; an answer whose canonical form differs from the expected one
  is answered \<^verbatim>\<open>correct = false\<close> and leaves the store as it was.
\<close>

theorem submitAnswer_frame:
  "users (snd (submitAnswer db sess n ans now)) = users db
   \<and> (snd (submitAnswer db sess n ans now) \<noteq> db \<longrightarrow>
        fst (submitAnswer db sess n ans now) = Inr True
        \<and> (\<exists>uid un k. sess = Some (uid, un) \<and> n = Integral k
              \<and> k \<le> highestSolved (select_progress db uid) + 1
              \<and> (\<exists>p \<in> set (progress db). user_id p = uid \<and> level p = k \<and> is_solved p = 0)
              \<and> progress (snd (submitAnswer db sess n ans now)) =
                  map (\<lambda>p. if user_id p = uid \<and> level p = k
                            then p\<lparr>is_solved := 1, solved_at := Some now\<rparr> else p)
                      (progress db)))
   \<and> (1 \<le> k \<and> k \<le> int (length LEVELS) \<and> k \<le> highestSolved (select_progress db uid) + 1
        \<and> find (\<lambda>p. user_id p = uid \<and> level p = k) (progress db) = Some p0 \<and> is_solved p0 \<noteq> 0
        \<and> norm ans = norm (Some (JStr (answer (LEVELS ! nat (k - 1))))) \<longrightarrow>
        submitAnswer db (Some (uid, un)) (Integral k) ans now = (Inr True, db))
   \<and> (1 \<le> k \<and> k \<le> int (length LEVELS) \<and> k \<le> highestSolved (select_progress db uid) + 1
        \<and> norm ans = Inr a \<and> norm ans \<noteq> norm (Some (JStr (answer (LEVELS ! nat (k - 1))))) \<longrightarrow>
        submitAnswer db (Some (uid, un)) (Integral k) ans now = (Inr False, db))"
proof (intro conjI impI)
  show "users (snd (submitAnswer db sess n ans now)) = users db"
    by (rule submitAnswer_users)
next
  assume changed: "snd (submitAnswer db sess n ans now) \<noteq> db"
  from submitAnswer_changed [OF changed] obtain uid un k where
      c: "sess = Some (uid, un)" "n = Integral k"
         "k \<le> highestSolved (select_progress db uid) + 1"
         "\<exists>p \<in> set (progress db). user_id p = uid \<and> level p = k \<and> is_solved p = 0"
         "submitAnswer db sess n ans now = (Inr True, set_solved db now uid k)"
    by blast
  show "fst (submitAnswer db sess n ans now) = Inr True"
    using c(5) by simp
  have "progress (snd (submitAnswer db sess n ans now)) =
          map (\<lambda>p. if user_id p = uid \<and> level p = k
                    then p\<lparr>is_solved := 1, solved_at := Some now\<rparr> else p)
              (progress db)"
    using c(5) by (simp add: progress_set_solved)
  with c(1-4)
  show "\<exists>uid un k. sess = Some (uid, un) \<and> n = Integral k
              \<and> k \<le> highestSolved (select_progress db uid) + 1
              \<and> (\<exists>p \<in> set (progress db). user_id p = uid \<and> level p = k \<and> is_solved p = 0)
              \<and> progress (snd (submitAnswer db sess n ans now)) =
                  map (\<lambda>p. if user_id p = uid \<and> level p = k
                            then p\<lparr>is_solved := 1, solved_at := Some now\<rparr> else p)
                      (progress db)"
    by blast
next
  assume h: "1 \<le> k \<and> k \<le> int (length LEVELS) \<and> k \<le> highestSolved (select_progress db uid) + 1
        \<and> find (\<lambda>p. user_id p = uid \<and> level p = k) (progress db) = Some p0 \<and> is_solved p0 \<noteq> 0
        \<and> norm ans = norm (Some (JStr (answer (LEVELS ! nat (k - 1)))))"
  then show "submitAnswer db (Some (uid, un)) (Integral k) ans now = (Inr True, db)"
    using submitAnswer_correct [of k db uid ans un now] by simp
next
  assume h: "1 \<le> k \<and> k \<le> int (length LEVELS) \<and> k \<le> highestSolved (select_progress db uid) + 1
        \<and> norm ans = Inr a \<and> norm ans \<noteq> norm (Some (JStr (answer (LEVELS ! nat (k - 1)))))"
  then show "submitAnswer db (Some (uid, un)) (Integral k) ans now = (Inr False, db)"
    using submitAnswer_incorrect [of k db uid ans a un now] by blast
qed

text \<open>
  A wrong answer by amy, a repeated right answer after level 1 is solved, and the one
  change: her first right answer for level 1.
\<close>

theorem submitAnswer_frame_witness:
  "submitAnswer amy_store amy (Integral 1) (Some (JStr ''wrong'')) 9 = (Inr False, amy_store)
   \<and> submitAnswer amy_store_1 amy (Integral 1) (Some (JStr ''Echo'')) 9 = (Inr True, amy_store_1)
   \<and> snd (submitAnswer amy_store amy (Integral 1) (Some (JStr ''echo'')) 7) = amy_store_1
   \<and> amy_store_1 \<noteq> amy_store
   \<and> fst (submitAnswer amy_store amy (Integral 1) (Some (JStr ''echo'')) 7) = Inr True"
proof -
  have range: "(1::int) \<le> 1" "1 \<le> int (length LEVELS)"
    by (simp_all add: length_LEVELS)
  have unlocked: "1 \<le> highestSolved (select_progress amy_store ''u1'') + 1"
      "1 \<le> highestSolved (select_progress amy_store_1 ''u1'') + 1"
    by (simp_all add: highestSolved_ge_iff)
  have wrong: "norm (Some (JStr ''wrong'')) = Inr ''wrong''"
      "norm (Some (JStr ''wrong'')) \<noteq> norm (Some (JStr (answer (LEVELS ! nat (1 - 1)))))"
    by code_simp+
  have again: "find (\<lambda>p. user_id p = ''u1'' \<and> level p = 1) (progress amy_store_1)
         = Some \<lparr>user_id = ''u1'', level = 1, is_solved = 1, solved_at = Some 7\<rparr>"
      "is_solved \<lparr>user_id = ''u1'', level = 1, is_solved = 1, solved_at = Some 7\<rparr> \<noteq> 0"
      "norm (Some (JStr ''Echo'')) = norm (Some (JStr (answer (LEVELS ! nat (1 - 1)))))"
    by code_simp+
  have first: "snd (submitAnswer amy_store amy (Integral 1) (Some (JStr ''echo'')) 7) = amy_store_1"
      "amy_store_1 \<noteq> amy_store"
    by code_simp+
  from submitAnswer_frame [of amy_store amy "Integral 1" "Some (JStr ''wrong'')" 9 1 "''u1''" _
      "''amy''" "''wrong''"] range unlocked wrong
  have 1: "submitAnswer amy_store amy (Integral 1) (Some (JStr ''wrong'')) 9 = (Inr False, amy_store)"
    unfolding amy_def by blast
  from submitAnswer_frame [of amy_store_1 amy "Integral 1" "Some (JStr ''Echo'')" 9 1 "''u1''"
      "\<lparr>user_id = ''u1'', level = 1, is_solved = 1, solved_at = Some 7\<rparr>" "''amy''"]
    range unlocked again
  have 2: "submitAnswer amy_store_1 amy (Integral 1) (Some (JStr ''Echo'')) 9 = (Inr True, amy_store_1)"
    unfolding amy_def by blast
  from submitAnswer_frame [of amy_store amy "Integral 1" "Some (JStr ''echo'')" 7] first
  have 3: "fst (submitAnswer amy_store amy (Integral 1) (Some (JStr ''echo'')) 7) = Inr True"
    by metis
  from 1 2 3 first show ?thesis by simp
qed

section \<open>What reading a level returns\<close>

lemma find_filter_conv:
  "find P xs = (case filter P xs of [] \<Rightarrow> None | x # _ \<Rightarrow> Some x)"
  by (induction xs) simp_all

lemma find_select_progress:
  "find (\<lambda>p. level p = k) (select_progress db uid)
   = find (\<lambda>p. user_id p = uid \<and> level p = k) (progress db)"
proof -
  have "filter (\<lambda>p. level p = k) (select_progress db uid)
        = filter (\<lambda>p. level p = k) (filter (\<lambda>p. user_id p = uid) (progress db))"
    unfolding select_progress_def by (rule sort_key_stable)
  also have "\<dots> = filter (\<lambda>p. user_id p = uid \<and> level p = k) (progress db)"
    by (simp add: conj_commute)
  finally show ?thesis
    by (simp only: find_filter_conv)
qed

lemma getLevel_on_result:
  assumes "getLevel_on levels db sess n = Inr v"
  shows "\<exists>uid un k. sess = Some (uid, un) \<and> n = Integral k \<and> 1 \<le> k \<and> k \<le> int (length levels)
           \<and> k \<le> highestSolved (select_progress db uid) + 1
           \<and> v = \<lparr>lv_level = k, lv_prompt = prompt (levels ! nat (k - 1)),
                    lv_is_solved =
                      (case find (\<lambda>p. user_id p = uid \<and> level p = k) (progress db) of
                         None \<Rightarrow> False
                       | Some p \<Rightarrow> is_solved p = 1)\<rparr>"
proof -
  from assms obtain uid un where sess: "sess = Some (uid, un)"
    by (cases sess) (auto simp: getLevel_on_def)
  from assms obtain k where n: "n = Integral k"
    unfolding sess by (cases n) (auto simp: getLevel_on_def)
  from assms have range: "1 \<le> k" "k \<le> int (length levels)"
    unfolding sess n by (auto simp: getLevel_on_def split: if_splits)
  from assms range have unlocked: "k \<le> highestSolved (select_progress db uid) + 1"
    unfolding sess n by (auto simp: getLevel_on_def Let_def split: if_splits)
  from assms range unlocked have "v = \<lparr>lv_level = k, lv_prompt = prompt (levels ! nat (k - 1)),
                    lv_is_solved =
                      (case find (\<lambda>p. level p = k) (select_progress db uid) of
                         None \<Rightarrow> False
                       | Some p \<Rightarrow> is_solved p = 1)\<rparr>"
    unfolding sess n by (simp add: getLevel_on_def Let_def)
  with sess n range unlocked show ?thesis
    by (simp only: find_select_progress) blast
qed

lemma getLevel_on_prompts_only:
  assumes "map prompt levels = map prompt levels'"
  shows "getLevel_on levels db sess n = getLevel_on levels' db sess n"
proof -
  from assms have len: "length levels = length levels'"
    by (rule map_eq_imp_length_eq)
  have "prompt (levels ! i) = prompt (levels' ! i)" if "i < length levels" for i
    using that assms len by (metis nth_map)
  then have "prompt (levels ! nat (k - 1)) = prompt (levels' ! nat (k - 1))"
    if "1 \<le> k" "k \<le> int (length levels)" for k
    using that by simp
  then show ?thesis
    unfolding getLevel_on_def len
    by (cases sess; cases n) (auto simp: Let_def len)
qed

text \<open>
  Claim C9. A successful read of a level returns the level number, the prompt of that
  level and whether the record of the user for it has \<^verbatim>\<open>is_solved = 1\<close>, and nothing
  else; the response is the same for any two level tables with the same prompts, so no
  expected answer enters it. For a locked level the response is the bare error
  \<^verbatim>\<open>locked\<close>, which carries no prompt.
\<close>

theorem getLevel_response:
  "(getLevel db sess n = Inr v \<longrightarrow>
      (\<exists>uid un k. sess = Some (uid, un) \<and> n = Integral k \<and> 1 \<le> k \<and> k \<le> int (length LEVELS)
           \<and> k \<le> highestSolved (select_progress db uid) + 1
           \<and> v = \<lparr>lv_level = k, lv_prompt = prompt (LEVELS ! nat (k - 1)),
                    lv_is_solved =
                      (case find (\<lambda>p. user_id p = uid \<and> level p = k) (progress db) of
                         None \<Rightarrow> False
                       | Some p \<Rightarrow> is_solved p = 1)\<rparr>))
   \<and> (map prompt levels = map prompt levels' \<longrightarrow>
        getLevel_on levels db sess n = getLevel_on levels' db sess n)
   \<and> (1 \<le> k \<and> k \<le> int (length LEVELS) \<and> k > highestSolved (select_progress db uid) + 1 \<longrightarrow>
        getLevel db (Some (uid, un)) (Integral k) = Inl Locked)"
proof (intro conjI impI)
  assume "getLevel db sess n = Inr v"
  then show "\<exists>uid un k. sess = Some (uid, un) \<and> n = Integral k \<and> 1 \<le> k \<and> k \<le> int (length LEVELS)
           \<and> k \<le> highestSolved (select_progress db uid) + 1
           \<and> v = \<lparr>lv_level = k, lv_prompt = prompt (LEVELS ! nat (k - 1)),
                    lv_is_solved =
                      (case find (\<lambda>p. user_id p = uid \<and> level p = k) (progress db) of
                         None \<Rightarrow> False
                       | Some p \<Rightarrow> is_solved p = 1)\<rparr>"
    unfolding getLevel_def by (rule getLevel_on_result)
next
  assume "map prompt levels = map prompt levels'"
  then show "getLevel_on levels db sess n = getLevel_on levels' db sess n"
    by (rule getLevel_on_prompts_only)
next
  assume "1 \<le> k \<and> k \<le> int (length LEVELS) \<and> k > highestSolved (select_progress db uid) + 1"
  then show "getLevel db (Some (uid, un)) (Integral k) = Inl Locked"
    by (simp add: getLevel_locked_iff)
qed


text \<open>
  Amy, with level 1 solved, reads level 1 and the locked level 3; blanking every expected
  answer of the table changes nothing of what she reads.
\<close>

theorem getLevel_response_witness:
  "getLevel amy_store_1 amy (Integral 1)
     = Inr \<lparr>lv_level = 1,
            lv_prompt = ''I speak without a mouth and hear without ears. What am I?'',
            lv_is_solved = True\<rparr>
   \<and> getLevel amy_store_1 amy (Integral 3) = Inl Locked
   \<and> getLevel_on LEVELS amy_store_1 amy (Integral 1)
       = getLevel_on (map (\<lambda>l. l\<lparr>answer := []\<rparr>) LEVELS) amy_store_1 amy (Integral 1)"
proof -
  have read: "getLevel amy_store_1 amy (Integral 1)
     = Inr \<lparr>lv_level = 1,
            lv_prompt = ''I speak without a mouth and hear without ears. What am I?'',
            lv_is_solved = True\<rparr>"
    by code_simp
  have prompts: "map prompt LEVELS = map prompt (map (\<lambda>l. l\<lparr>answer := []\<rparr>) LEVELS)"
    by simp
  have hs: "highestSolved (select_progress amy_store_1 ''u1'') = 1"
    by code_simp
  have locked: "(1::int) \<le> 3 \<and> 3 \<le> int (length LEVELS)
      \<and> 3 > highestSolved (select_progress amy_store_1 ''u1'') + 1"
    by (simp add: hs length_LEVELS)
  from getLevel_response [of amy_store_1 amy "Integral 1" _ LEVELS
      "map (\<lambda>l. l\<lparr>answer := []\<rparr>) LEVELS" 3 "''u1''" "''amy''"] prompts locked read
  show ?thesis
    unfolding amy_def by blast
qed

section \<open>Registration is all or nothing\<close>

lemma insert_progress_Inr:
  assumes "insert_progress db uid i = Inr db'"
  shows "users db' = users db
    \<and> progress db' = progress db @ [\<lparr>user_id = uid, level = i, is_solved = 0, solved_at = None\<rparr>]"
  using assms by (auto simp: insert_progress_def split: if_splits)

lemma seed_progress_Inr:
  "seed_progress db uid ls = Inr db' \<Longrightarrow>
   users db' = users db
   \<and> progress db' = progress db
        @ map (\<lambda>i. \<lparr>user_id = uid, level = i, is_solved = 0, solved_at = None\<rparr>) ls"
proof (induction ls arbitrary: db)
  case Nil
  then show ?case by simp
next
  case (Cons i rest)
  from Cons.prems obtain db1 where step: "insert_progress db uid i = Inr db1"
      and rest: "seed_progress db1 uid rest = Inr db'"
    by (cases "insert_progress db uid i") auto
  from Cons.IH [OF rest] insert_progress_Inr [OF step] show ?case
    by simp
qed

lemma seed_progress_succeeds:
  "distinct ls \<Longrightarrow> \<forall>p \<in> set (progress db). user_id p \<noteq> uid \<or> level p \<notin> set ls \<Longrightarrow>
   \<exists>db'. seed_progress db uid ls = Inr db'"
proof (induction ls arbitrary: db)
  case Nil
  then show ?case by simp
next
  case (Cons i rest)
  from Cons.prems(2) have "(uid, i) \<notin> set (map (\<lambda>p. (user_id p, level p)) (progress db))"
    by auto
  then have step: "insert_progress db uid i
      = Inr (db\<lparr>progress := progress db
               @ [\<lparr>user_id = uid, level = i, is_solved = 0, solved_at = None\<rparr>]\<rparr>)"
    by (simp add: insert_progress_def)
  let ?db1 = "db\<lparr>progress := progress db
               @ [\<lparr>user_id = uid, level = i, is_solved = 0, solved_at = None\<rparr>]\<rparr>"
  have "\<forall>p \<in> set (progress ?db1). user_id p \<noteq> uid \<or> level p \<notin> set rest"
    using Cons.prems by auto
  with Cons.prems(1) have "\<exists>db'. seed_progress ?db1 uid rest = Inr db'"
    by (intro Cons.IH) simp_all
  with step show ?case by simp
qed

lemma insert_user_Inr:
  assumes "insert_user db u = Inr db1"
  shows "u_id u \<notin> set (map u_id (users db)) \<and> username u \<notin> set (map username (users db))
    \<and> users db1 = users db @ [u] \<and> progress db1 = progress db"
  using assms by (auto simp: insert_user_def split: if_splits)

lemma tx_after_insert_user:
  assumes fk: "progress_references_users db" and ins: "insert_user db u = Inr db1"
  shows "\<exists>db2. tx db1 (u_id u) = Inr db2"
proof -
  from insert_user_Inr [OF ins] have fresh: "u_id u \<notin> set (map u_id (users db))"
      and same: "progress db1 = progress db"
    by simp_all
  from fk fresh have "\<forall>p \<in> set (progress db). user_id p \<noteq> u_id u"
    unfolding progress_references_users_def by metis
  then have "\<forall>p \<in> set (progress db1).
       user_id p \<noteq> u_id u \<or> level p \<notin> set [1..int (length LEVELS)]"
    unfolding same by blast
  then show ?thesis
    unfolding tx_def by (intro seed_progress_succeeds) simp_all
qed

lemma register_cases:
  assumes fk: "progress_references_users db"
  shows "(\<exists>e. register db uname password new_id hash now = (Inl e, db))
    \<or> (new_id \<notin> set (map u_id (users db)) \<and> uname \<notin> set (map username (users db))
        \<and> register db uname password new_id hash now =
           (Inr (new_id, uname),
            \<lparr>users = users db @ [\<lparr>u_id = new_id, username = uname, password_hash = hash,
                                  created_at = now\<rparr>],
             progress = progress db
               @ map (\<lambda>i. \<lparr>user_id = new_id, level = i, is_solved = 0, solved_at = None\<rparr>)
                     [1..int (length LEVELS)]\<rparr>))"
proof (cases "uname = [] \<or> password = [] \<or> length uname < 3 \<or> length uname > 24
                \<or> length password < 6")
  case True
  then show ?thesis by (auto simp: register_def)
next
  case False
  let ?u = "\<lparr>u_id = new_id, username = uname, password_hash = hash, created_at = now\<rparr>"
  show ?thesis
  proof (cases "insert_user db ?u")
    case (Inl e)
    with False show ?thesis by (simp add: register_def)
  next
    case (Inr db1)
    from tx_after_insert_user [OF fk Inr] obtain db2 where tx: "tx db1 new_id = Inr db2"
      by auto
    from seed_progress_Inr [OF tx [unfolded tx_def]] insert_user_Inr [OF Inr]
    have "users db2 = users db @ [?u]"
        "progress db2 = progress db
               @ map (\<lambda>i. \<lparr>user_id = new_id, level = i, is_solved = 0, solved_at = None\<rparr>)
                     [1..int (length LEVELS)]"
      by simp_all
    then have "db2 = \<lparr>users = users db @ [?u],
             progress = progress db
               @ map (\<lambda>i. \<lparr>user_id = new_id, level = i, is_solved = 0, solved_at = None\<rparr>)
                     [1..int (length LEVELS)]\<rparr>"
      by (cases db2) simp
    moreover have "register db uname password new_id hash now = (Inr (new_id, uname), db2)"
      using False Inr tx by (simp add: register_def)
    ultimately show ?thesis
      using insert_user_Inr [OF Inr] by simp
  qed
qed

lemma register_taken:
  assumes "uname \<in> set (map username (users db))" and "new_id \<notin> set (map u_id (users db))"
    and "3 \<le> length uname" and "length uname \<le> 24" and "6 \<le> length password"
  shows "register db uname password new_id hash now = (Inl Username_taken, db)"
proof -
  have "uname \<noteq> []" "password \<noteq> []"
    using assms(3,5) by auto
  moreover have "insert_user db \<lparr>u_id = new_id, username = uname, password_hash = hash,
      created_at = now\<rparr> = Inl SQLITE_CONSTRAINT_UNIQUE"
    using assms(1,2) by (simp add: insert_user_def)
  ultimately show ?thesis
    using assms(3-5) by (simp add: register_def register_catch_def)
qed

text \<open>
  Claim C2. On a store whose progress rows all belong to existing users (the foreign key
  of the schema), a registration either fails and leaves the store exactly as it was, or
  succeeds and appends the user row and the N progress rows of the new user, levels 1..N,
  all unsolved and without a solve time; these are then all the progress rows of that
  user. With a taken username (and an unused id from \<^verbatim>\<open>nanoid\<close>) a registration that
  passes the length checks fails with \<^verbatim>\<open>username_taken\<close> and changes nothing.
\<close>

theorem register_all_or_nothing:
  assumes "progress_references_users db"
  shows "(\<forall>e db'. register db uname password new_id hash now = (Inl e, db') \<longrightarrow> db' = db)
    \<and> (\<forall>r db'. register db uname password new_id hash now = (Inr r, db') \<longrightarrow>
          r = (new_id, uname)
          \<and> users db' = users db @ [\<lparr>u_id = new_id, username = uname, password_hash = hash,
                                      created_at = now\<rparr>]
          \<and> progress db' = progress db
               @ map (\<lambda>i. \<lparr>user_id = new_id, level = i, is_solved = 0, solved_at = None\<rparr>)
                     [1..int (length LEVELS)]
          \<and> filter (\<lambda>p. user_id p = new_id) (progress db')
               = map (\<lambda>i. \<lparr>user_id = new_id, level = i, is_solved = 0, solved_at = None\<rparr>)
                     [1..int (length LEVELS)]
          \<and> length (filter (\<lambda>p. user_id p = new_id) (progress db')) = length LEVELS)
    \<and> (uname \<in> set (map username (users db)) \<and> new_id \<notin> set (map u_id (users db))
         \<and> 3 \<le> length uname \<and> length uname \<le> 24 \<and> 6 \<le> length password \<longrightarrow>
         register db uname password new_id hash now = (Inl Username_taken, db))"
proof (intro conjI allI impI)
  fix e db'
  assume "register db uname password new_id hash now = (Inl e, db')"
  with register_cases [OF assms, of uname password new_id hash now] show "db' = db"
    by auto
next
  fix r db'
  assume ok: "register db uname password new_id hash now = (Inr r, db')"
  let ?rows = "map (\<lambda>i. \<lparr>user_id = new_id, level = i, is_solved = 0, solved_at = None\<rparr>)
                     [1..int (length LEVELS)]"
  from ok register_cases [OF assms, of uname password new_id hash now]
  have fresh: "new_id \<notin> set (map u_id (users db))"
    and r: "r = (new_id, uname)"
    and db': "db' = \<lparr>users = users db @ [\<lparr>u_id = new_id, username = uname,
                 password_hash = hash, created_at = now\<rparr>],
               progress = progress db @ ?rows\<rparr>"
    by auto
  from assms fresh have none: "filter (\<lambda>p. user_id p = new_id) (progress db) = []"
    unfolding progress_references_users_def filter_empty_conv by metis
  have mine: "filter (\<lambda>p. user_id p = new_id) ?rows = ?rows"
    by (simp add: filter_map o_def)
  show "r = (new_id, uname)" by (rule r)
  show "users db' = users db @ [\<lparr>u_id = new_id, username = uname, password_hash = hash,
                                      created_at = now\<rparr>]"
    unfolding db' by simp
  show "progress db' = progress db @ ?rows"
    unfolding db' by simp
  show rows: "filter (\<lambda>p. user_id p = new_id) (progress db') = ?rows"
    unfolding db' using none mine by simp
  show "length (filter (\<lambda>p. user_id p = new_id) (progress db')) = length LEVELS"
    unfolding rows by simp
next
  assume "uname \<in> set (map username (users db)) \<and> new_id \<notin> set (map u_id (users db))
         \<and> 3 \<le> length uname \<and> length uname \<le> 24 \<and> 6 \<le> length password"
  then show "register db uname password new_id hash now = (Inl Username_taken, db)"
    by (intro register_taken) simp_all
qed

text \<open>Bob registers after amy; a second amy is refused.\<close>

lemma amy_store_references: "progress_references_users amy_store"
  by (simp add: progress_references_users_def amy_store_def)

theorem register_all_or_nothing_witness:
  "register amy_store ''bob'' ''hunter2'' ''u2'' ''g'' 3 = (Inr (''u2'', ''bob''), amy_bob_store)
   \<and> length (filter (\<lambda>p. user_id p = ''u2'') (progress amy_bob_store)) = length LEVELS
   \<and> register amy_store ''amy'' ''hunter2'' ''u2'' ''g'' 3 = (Inl Username_taken, amy_store)"
proof -
  have ok: "register amy_store ''bob'' ''hunter2'' ''u2'' ''g'' 3
      = (Inr (''u2'', ''bob''), amy_bob_store)"
    by code_simp
  have taken: "''amy'' \<in> set (map username (users amy_store))
      \<and> ''u2'' \<notin> set (map u_id (users amy_store))
      \<and> 3 \<le> length ''amy'' \<and> length ''amy'' \<le> 24 \<and> 6 \<le> length ''hunter2''"
    by (simp add: amy_store_def)
  from register_all_or_nothing [OF amy_store_references, of "''bob''" "''hunter2''" "''u2''" "''g''" 3] ok
  have "length (filter (\<lambda>p. user_id p = ''u2'') (progress amy_bob_store)) = length LEVELS"
    by blast
  moreover from register_all_or_nothing [OF amy_store_references, of "''amy''" "''hunter2''" "''u2''" "''g''" 3] taken
  have "register amy_store ''amy'' ''hunter2'' ''u2'' ''g'' 3 = (Inl Username_taken, amy_store)"
    by blast
  ultimately show ?thesis
    using ok by simp
qed

text \<open>
  The user row is inserted outside the transaction, so the foreign key is needed: on a
  store with an orphan progress row the transaction fails and the user row stays.
\<close>

lemma register_on_orphan_rows:
  "register orphan_store ''bob'' ''hunter2'' ''u2'' ''g'' 3
     = (Inl Server_error,
        orphan_store\<lparr>users := [\<lparr>u_id = ''u2'', username = ''bob'', password_hash = ''g'',
                                 created_at = 3\<rparr>]\<rparr>)"
  by code_simp

section \<open>Solved stays solved\<close>

lemma keeps_solved_refl: "keeps_solved db db"
  by (simp add: keeps_solved_def)

lemma keeps_solved_trans:
  assumes "keeps_solved a b" and "keeps_solved b c"
  shows "keeps_solved a c"
  unfolding keeps_solved_def
proof (intro conjI allI impI)
  show "length (progress a) \<le> length (progress c)"
    using assms by (simp add: keeps_solved_def)
next
  fix i assume i: "i < length (progress a)"
  with assms(1) have ib: "i < length (progress b)"
    by (simp add: keeps_solved_def)
  from assms(1) i have ab: "user_id (progress b ! i) = user_id (progress a ! i)"
      "level (progress b ! i) = level (progress a ! i)"
      "is_solved (progress a ! i) \<noteq> 0 \<longrightarrow> is_solved (progress b ! i) \<noteq> 0"
    by (simp_all add: keeps_solved_def)
  from assms(2) ib have bc: "user_id (progress c ! i) = user_id (progress b ! i)"
      "level (progress c ! i) = level (progress b ! i)"
      "is_solved (progress b ! i) \<noteq> 0 \<longrightarrow> is_solved (progress c ! i) \<noteq> 0"
    by (simp_all add: keeps_solved_def)
  from ab bc show "user_id (progress c ! i) = user_id (progress a ! i)" by simp
  from ab bc show "level (progress c ! i) = level (progress a ! i)" by simp
  assume "is_solved (progress a ! i) \<noteq> 0"
  with ab bc show "is_solved (progress c ! i) \<noteq> 0" by simp
qed

lemma keeps_solved_append:
  "progress db' = progress db @ rows \<Longrightarrow> keeps_solved db db'"
  by (simp add: keeps_solved_def nth_append)

lemma keeps_solved_set_solved: "keeps_solved db (set_solved db now uid k)"
  unfolding keeps_solved_def progress_set_solved by simp

lemma submitAnswer_store:
  "snd (submitAnswer db sess n ans now) = db
   \<or> (\<exists>uid k. snd (submitAnswer db sess n ans now) = set_solved db now uid k)"
  using submitAnswer_changed [of db sess n ans now] by (metis snd_conv)

lemma submitAnswer_keeps_solved: "keeps_solved db (snd (submitAnswer db sess n ans now))"
  using submitAnswer_store [of db sess n ans now]
  by (auto simp: keeps_solved_refl keeps_solved_set_solved)

lemma register_progress:
  "\<exists>rows. progress (snd (register db uname password new_id hash now)) = progress db @ rows"
proof (cases "uname = [] \<or> password = [] \<or> length uname < 3 \<or> length uname > 24
                \<or> length password < 6")
  case True
  then show ?thesis by (auto simp: register_def)
next
  case False
  let ?u = "\<lparr>u_id = new_id, username = uname, password_hash = hash, created_at = now\<rparr>"
  show ?thesis
  proof (cases "insert_user db ?u")
    case (Inl e)
    with False show ?thesis by (simp add: register_def)
  next
    case (Inr db1)
    note ins = insert_user_Inr [OF Inr]
    show ?thesis
    proof (cases "tx db1 new_id")
      case (Inl e)
      with False Inr ins show ?thesis by (simp add: register_def)
    next
      case tx: (Inr db2)
      from seed_progress_Inr [OF tx [unfolded tx_def]] ins
      have "\<exists>rows. progress db2 = progress db @ rows"
        by simp
      with False Inr tx show ?thesis by (simp add: register_def)
    qed
  qed
qed

lemma step_progress_prefix:
  assumes "\<forall>sess n ans now. req \<noteq> SubmitAnswer sess n ans now"
  shows "take (length (progress db)) (progress (step db req)) = progress db"
proof (cases req)
  case (Register uname password new_id hash now)
  with register_progress [of db uname password new_id hash now] show ?thesis
    by auto
next
  case (SubmitAnswer sess n ans now)
  with assms show ?thesis by blast
qed simp_all

lemma step_keeps_solved: "keeps_solved db (step db req)"
proof (cases req)
  case (Register uname password new_id hash now)
  with register_progress [of db uname password new_id hash now] show ?thesis
    by (auto intro: keeps_solved_append)
next
  case (SubmitAnswer sess n ans now)
  then show ?thesis by (simp add: submitAnswer_keeps_solved)
qed (simp_all add: keeps_solved_refl)

lemma run_Cons: "run db (req # reqs) = run (step db req) reqs"
  by (simp add: run_def)

lemma run_keeps_solved: "keeps_solved db (run db reqs)"
proof (induction reqs arbitrary: db)
  case Nil
  then show ?case by (simp add: run_def keeps_solved_refl)
next
  case (Cons req reqs)
  from step_keeps_solved Cons.IH show ?case
    unfolding run_Cons by (rule keeps_solved_trans)
qed

lemma keeps_solved_highestSolved:
  assumes "keeps_solved db db'"
  shows "highestSolved (select_progress db uid) \<le> highestSolved (select_progress db' uid)"
proof (rule highestSolved_mono)
  fix p assume "p \<in> set (select_progress db uid)" and solved: "is_solved p \<noteq> 0"
  then have "p \<in> set (progress db)" and uid: "user_id p = uid"
    by (simp_all add: set_select_progress)
  then obtain i where i: "i < length (progress db)" "progress db ! i = p"
    by (auto simp: in_set_conv_nth)
  let ?q = "progress db' ! i"
  from assms i have len: "i < length (progress db')"
    and q: "user_id ?q = user_id p" "level ?q = level p" "is_solved p \<noteq> 0 \<longrightarrow> is_solved ?q \<noteq> 0"
    by (auto simp: keeps_solved_def)
  from len have "?q \<in> set (progress db')"
    by simp
  with q uid solved have "?q \<in> set (select_progress db' uid)" "is_solved ?q \<noteq> 0" "level ?q = level p"
    by (simp_all add: set_select_progress)
  then show "\<exists>q \<in> set (select_progress db' uid). is_solved q \<noteq> 0 \<and> level q = level p"
    by blast
qed

text \<open>
  Claim C8. Over any sequence of registrations, level reads, submissions and leaderboard
  reads, the highest solved level of every user never decreases; every progress row stays
  at its place for the same user and level, and a solved row stays solved. A request other
  than a submission leaves every existing progress row as it is (a registration only
  appends rows).
\<close>

theorem solve_state_one_way:
  "highestSolved (select_progress db uid) \<le> highestSolved (select_progress (run db reqs) uid)
   \<and> length (progress db) \<le> length (progress (run db reqs))
   \<and> (\<forall>i < length (progress db).
         user_id (progress (run db reqs) ! i) = user_id (progress db ! i)
         \<and> level (progress (run db reqs) ! i) = level (progress db ! i)
         \<and> (is_solved (progress db ! i) \<noteq> 0 \<longrightarrow> is_solved (progress (run db reqs) ! i) \<noteq> 0))
   \<and> ((\<forall>sess n ans now. req \<noteq> SubmitAnswer sess n ans now) \<longrightarrow>
        take (length (progress db)) (progress (step db req)) = progress db)"
proof (intro conjI)
  show "highestSolved (select_progress db uid) \<le> highestSolved (select_progress (run db reqs) uid)"
    using run_keeps_solved by (rule keeps_solved_highestSolved)
  show "length (progress db) \<le> length (progress (run db reqs))"
    using run_keeps_solved [of db reqs] by (simp add: keeps_solved_def)
  show "\<forall>i < length (progress db).
         user_id (progress (run db reqs) ! i) = user_id (progress db ! i)
         \<and> level (progress (run db reqs) ! i) = level (progress db ! i)
         \<and> (is_solved (progress db ! i) \<noteq> 0 \<longrightarrow> is_solved (progress (run db reqs) ! i) \<noteq> 0)"
    using run_keeps_solved [of db reqs] by (simp add: keeps_solved_def)
  show "(\<forall>sess n ans now. req \<noteq> SubmitAnswer sess n ans now) \<longrightarrow>
        take (length (progress db)) (progress (step db req)) = progress db"
    using step_progress_prefix by blast
qed


text \<open>Amy's requests take her highest solved level from 1 to 2; level 1 stays solved.\<close>

theorem solve_state_one_way_witness:
  "highestSolved (select_progress amy_store_1 ''u1'') = 1
   \<and> highestSolved (select_progress (run amy_store_1 amy_requests) ''u1'') = 2
   \<and> highestSolved (select_progress amy_store_1 ''u1'')
       \<le> highestSolved (select_progress (run amy_store_1 amy_requests) ''u1'')
   \<and> is_solved (progress amy_store_1 ! 0) = 1
   \<and> is_solved (progress (run amy_store_1 amy_requests) ! 0) \<noteq> 0
   \<and> take (length (progress amy_store_1)) (progress (step amy_store_1 Leaderboard))
       = progress amy_store_1"
proof -
  have before: "highestSolved (select_progress amy_store_1 ''u1'') = 1"
    by code_simp
  have after: "highestSolved (select_progress (run amy_store_1 amy_requests) ''u1'') = 2"
    by code_simp
  have row: "0 < length (progress amy_store_1)" "is_solved (progress amy_store_1 ! 0) = 1"
    by (simp_all add: amy_store_1_def)
  have "\<forall>sess n ans now. Leaderboard \<noteq> SubmitAnswer sess n ans now"
    by simp
  with solve_state_one_way [of amy_store_1 "''u1''" amy_requests Leaderboard] row
  have "highestSolved (select_progress amy_store_1 ''u1'')
          \<le> highestSolved (select_progress (run amy_store_1 amy_requests) ''u1'')"
      "is_solved (progress (run amy_store_1 amy_requests) ! 0) \<noteq> 0"
      "take (length (progress amy_store_1)) (progress (step amy_store_1 Leaderboard))
         = progress amy_store_1"
    by auto
  with before after row show ?thesis by simp
qed

section \<open>The order of the leaderboard\<close>

text \<open>The leaderboard of the four users: bob, alice, amy, zara.\<close>

lemma board_example: "leaderboard board_store =
  [\<lparr>lb_username = ''bob'', solved_levels = 3, tiebreak_ts = Some 5\<rparr>,
   \<lparr>lb_username = ''alice'', solved_levels = 3, tiebreak_ts = Some 10\<rparr>,
   \<lparr>lb_username = ''amy'', solved_levels = 0, tiebreak_ts = None\<rparr>,
   \<lparr>lb_username = ''zara'', solved_levels = 0, tiebreak_ts = None\<rparr>]"
  by code_simp

lemma mset_insert_by: "mset (insert_by le x xs) = add_mset x (mset xs)"
  by (induction xs) simp_all

lemma set_insert_by: "set (insert_by le x xs) = insert x (set xs)"
  by (induction xs) auto

lemma mset_order_by: "mset (order_by le xs) = mset xs"
  unfolding order_by_def by (induction xs) (simp_all add: mset_insert_by)

lemma sorted_insert_by:
  assumes total: "\<And>a b. le a b \<or> le b a" and trans: "\<And>a b c. le a b \<Longrightarrow> le b c \<Longrightarrow> le a c"
  shows "sorted_wrt le xs \<Longrightarrow> sorted_wrt le (insert_by le x xs)"
proof (induction xs)
  case Nil
  then show ?case by simp
next
  case (Cons y ys)
  show ?case
  proof (cases "le x y")
    case True
    with Cons.prems trans show ?thesis by auto
  next
    case False
    with total have "le y x" by blast
    with Cons False show ?thesis
      by (auto simp: set_insert_by)
  qed
qed

lemma sorted_order_by:
  assumes "\<And>a b. le a b \<or> le b a" and "\<And>a b c. le a b \<Longrightarrow> le b c \<Longrightarrow> le a c"
  shows "sorted_wrt le (order_by le xs)"
  unfolding order_by_def
  by (induction xs) (simp_all add: sorted_insert_by [OF assms])

lemma ts_before_cases: "ts_before x y \<or> x = y \<or> ts_before y x"
  by (cases x; cases y) auto

lemma ts_before_trans: "ts_before x y \<Longrightarrow> ts_before y z \<Longrightarrow> ts_before x z"
  by (cases x; cases y; cases z) auto

lemma board_le_total: "board_le a b \<or> board_le b a"
  using ts_before_cases [of "tiebreak_ts a" "tiebreak_ts b"]
  unfolding board_le_def by (metis linorder_less_linear linorder_linear)

lemma board_le_trans:
  assumes "board_le a b" and "board_le b c"
  shows "board_le a c"
proof -
  consider "solved_levels a > solved_levels b" | "solved_levels b > solved_levels c"
    | "solved_levels a = solved_levels b" "solved_levels b = solved_levels c"
    using assms unfolding board_le_def by linarith
  then show ?thesis
  proof cases
    case 1
    with assms(2) show ?thesis unfolding board_le_def by auto
  next
    case 2
    with assms(1) show ?thesis unfolding board_le_def by auto
  next
    case 3
    with assms have ab: "ts_before (tiebreak_ts a) (tiebreak_ts b)
          \<or> (tiebreak_ts a = tiebreak_ts b \<and> lb_username a \<le> lb_username b)"
      and bc: "ts_before (tiebreak_ts b) (tiebreak_ts c)
          \<or> (tiebreak_ts b = tiebreak_ts c \<and> lb_username b \<le> lb_username c)"
      unfolding board_le_def by auto
    from ab bc have "ts_before (tiebreak_ts a) (tiebreak_ts c)
          \<or> (tiebreak_ts a = tiebreak_ts c \<and> lb_username a \<le> lb_username c)"
      using ts_before_trans [of "tiebreak_ts a" "tiebreak_ts b" "tiebreak_ts c"]
      by (metis order_trans)
    with 3 show ?thesis unfolding board_le_def by simp
  qed
qed

lemma sorted_leaderboard: "sorted_wrt board_le (leaderboard db)"
proof -
  have "sorted_wrt board_le (order_by board_le (map (board_row_of db) (users db)))"
    using board_le_total board_le_trans by (rule sorted_order_by)
  then show ?thesis
    unfolding leaderboard_def by (rule sorted_wrt_take)
qed

section \<open>The columns of the leaderboard\<close>

lemma finite_Some_vimage: "finite (Some -` set xs)"
  by (rule finite_vimageI) simp_all

lemma sql_max_char:
  "sql_max xs = (if Some -` set xs = {} then None else Some (Max (Some -` set xs)))"
proof (induction xs rule: sql_max.induct)
  case 1
  then show ?case by simp
next
  case (2 xs)
  have "Some -` set (None # xs) = Some -` set xs" by auto
  with 2 show ?case by simp
next
  case (3 v xs)
  have ins: "Some -` set (Some v # xs) = insert v (Some -` set xs)" by auto
  show ?case
  proof (cases "Some -` set xs = {}")
    case True
    with 3 ins show ?thesis by simp
  next
    case False
    with 3 have "sql_max (Some v # xs) = Some (max v (Max (Some -` set xs)))" by simp
    also have "max v (Max (Some -` set xs)) = Max (insert v (Some -` set xs))"
      using False finite_Some_vimage [of xs] by simp
    finally show ?thesis unfolding ins by simp
  qed
qed

lemma sql_min_char:
  "sql_min xs = (if Some -` set xs = {} then None else Some (Min (Some -` set xs)))"
proof (induction xs rule: sql_min.induct)
  case 1
  then show ?case by simp
next
  case (2 xs)
  have "Some -` set (None # xs) = Some -` set xs" by auto
  with 2 show ?case by simp
next
  case (3 v xs)
  have ins: "Some -` set (Some v # xs) = insert v (Some -` set xs)" by auto
  show ?case
  proof (cases "Some -` set xs = {}")
    case True
    with 3 ins show ?thesis by simp
  next
    case False
    with 3 have "sql_min (Some v # xs) = Some (min v (Min (Some -` set xs)))" by simp
    also have "min v (Min (Some -` set xs)) = Min (insert v (Some -` set xs))"
      using False finite_Some_vimage [of xs] by simp
    finally show ?thesis unfolding ins by simp
  qed
qed

lemma left_join_Some:
  "Some p \<in> set (left_join db u) \<longleftrightarrow> p \<in> set (progress db) \<and> user_id p = u_id u"
proof (cases "filter (\<lambda>p. user_id p = u_id u) (progress db)")
  case Nil
  then have "\<forall>q \<in> set (progress db). user_id q \<noteq> u_id u"
    by (simp add: filter_empty_conv)
  with Nil show ?thesis by (auto simp: left_join_def)
next
  case (Cons q qs)
  then have "set (left_join db u) = Some ` set (filter (\<lambda>p. user_id p = u_id u) (progress db))"
    by (simp add: left_join_def)
  then show ?thesis by auto
qed

lemma vimage_joined:
  "Some -` set (map (\<lambda>r. case r of None \<Rightarrow> None | Some p \<Rightarrow> g p) (left_join db u))
   = {v. \<exists>p \<in> set (progress db). user_id p = u_id u \<and> g p = Some v}"
proof (intro set_eqI iffI)
  fix v
  assume "v \<in> Some -` set (map (\<lambda>r. case r of None \<Rightarrow> None | Some p \<Rightarrow> g p) (left_join db u))"
  then obtain r where r: "r \<in> set (left_join db u)"
      and v: "(case r of None \<Rightarrow> None | Some p \<Rightarrow> g p) = Some v"
    by auto
  from v obtain p where "r = Some p" "g p = Some v"
    by (cases r) auto
  with r left_join_Some [of p db u]
  show "v \<in> {v. \<exists>p \<in> set (progress db). user_id p = u_id u \<and> g p = Some v}"
    by auto
next
  fix v
  assume "v \<in> {v. \<exists>p \<in> set (progress db). user_id p = u_id u \<and> g p = Some v}"
  then obtain p where "p \<in> set (progress db)" "user_id p = u_id u" and g: "g p = Some v"
    by auto
  then have "Some p \<in> set (left_join db u)"
    by (simp add: left_join_Some)
  then have "(case Some p of None \<Rightarrow> None | Some p \<Rightarrow> g p)
      \<in> set (map (\<lambda>r. case r of None \<Rightarrow> None | Some p \<Rightarrow> g p) (left_join db u))"
    unfolding set_map by (rule imageI)
  with g show "v \<in> Some -` set (map (\<lambda>r. case r of None \<Rightarrow> None | Some p \<Rightarrow> g p) (left_join db u))"
    by simp
qed

lemma coalesce0_if: "coalesce0 (if c then None else Some m) = (if c then 0 else m)"
  by (simp add: coalesce0_def)

lemma solved_levels_char:
  "solved_levels (board_row_of db u) =
     (if {v. \<exists>p \<in> set (progress db). user_id p = u_id u \<and> is_solved p = 1 \<and> level p = v} = {}
      then 0
      else Max {v. \<exists>p \<in> set (progress db). user_id p = u_id u \<and> is_solved p = 1 \<and> level p = v})"
proof -
  have eq: "{v. \<exists>p \<in> set (progress db). user_id p = u_id u
            \<and> (if is_solved p = 1 then Some (level p) else None) = Some v}
      = {v. \<exists>p \<in> set (progress db). user_id p = u_id u \<and> is_solved p = 1 \<and> level p = v}"
    by auto
  have "solved_levels (board_row_of db u) =
      coalesce0 (sql_max (map (\<lambda>r. case r of None \<Rightarrow> None
                                 | Some p \<Rightarrow> if is_solved p = 1 then Some (level p) else None)
                              (left_join db u)))"
    by (simp add: board_row_of_def)
  then show ?thesis
    unfolding sql_max_char vimage_joined eq coalesce0_if .
qed

lemma max_solved_level_char: "max_solved_level db u = solved_levels (board_row_of db u)"
proof -
  have eq: "Some -` set (map (\<lambda>p. Some (level p))
           (filter (\<lambda>p. user_id p = u_id u \<and> is_solved p = 1) (progress db)))
      = {v. \<exists>p \<in> set (progress db). user_id p = u_id u \<and> is_solved p = 1 \<and> level p = v}"
    by auto
  show ?thesis
    unfolding solved_levels_char max_solved_level_def sql_max_char eq coalesce0_if ..
qed

lemma tiebreak_ts_char:
  "tiebreak_ts (board_row_of db u) =
     (if {t. \<exists>p \<in> set (progress db). user_id p = u_id u \<and> is_solved p = 1
               \<and> level p = solved_levels (board_row_of db u) \<and> solved_at p = Some t} = {}
      then None
      else Some (Min {t. \<exists>p \<in> set (progress db). user_id p = u_id u \<and> is_solved p = 1
               \<and> level p = solved_levels (board_row_of db u) \<and> solved_at p = Some t}))"
proof -
  have eq: "{t. \<exists>p \<in> set (progress db). user_id p = u_id u
            \<and> (if is_solved p = 1 \<and> level p = max_solved_level db u then solved_at p else None)
                = Some t}
      = {t. \<exists>p \<in> set (progress db). user_id p = u_id u \<and> is_solved p = 1
               \<and> level p = solved_levels (board_row_of db u) \<and> solved_at p = Some t}"
    unfolding max_solved_level_char by auto
  have "tiebreak_ts (board_row_of db u) =
      sql_min (map (\<lambda>r. case r of None \<Rightarrow> None
                         | Some p \<Rightarrow> if is_solved p = 1 \<and> level p = max_solved_level db u
                                    then solved_at p else None)
                   (left_join db u))"
    by (simp add: board_row_of_def)
  then show ?thesis
    unfolding sql_min_char vimage_joined eq .
qed

lemma set_leaderboard: "set (leaderboard db) \<subseteq> board_row_of db ` set (users db)"
proof -
  have "set (order_by board_le (map (board_row_of db) (users db)))
        = set_mset (mset (map (board_row_of db) (users db)))"
    unfolding mset_order_by [symmetric, of "map (board_row_of db) (users db)" board_le]
    by simp
  then have "set (order_by board_le (map (board_row_of db) (users db)))
        = board_row_of db ` set (users db)"
    by simp
  then show ?thesis
    unfolding leaderboard_def using set_take_subset by fastforce
qed

text \<open>
  Claim C3 fails as stated: the rows of the query are sent as they are, with their third
  column. After amy has solved level 1 at time 7, her entry carries that time.
\<close>

theorem leaderboard_exposes_timestamp:
  "leaderboard amy_store_1 = [\<lparr>lb_username = ''amy'', solved_levels = 1, tiebreak_ts = Some 7\<rparr>]
   \<and> solved_at (progress amy_store_1 ! 0) = Some 7"
  by code_simp

text \<open>
  Claim C3, amended. The leaderboard has at most 100 entries, and every entry is made of
  three columns of one user: the username; the highest level among the user's records with
  \<^verbatim>\<open>is_solved = 1\<close>, or 0 without such a record; and the earliest solve time recorded
  for that level, or null when there is none. No user id is part of an entry.
\<close>

theorem leaderboard_entries:
  "length (leaderboard db) \<le> 100
   \<and> (\<forall>r \<in> set (leaderboard db). \<exists>u \<in> set (users db).
         lb_username r = username u
         \<and> solved_levels r =
             (if {v. \<exists>p \<in> set (progress db). user_id p = u_id u \<and> is_solved p = 1 \<and> level p = v} = {}
              then 0
              else Max {v. \<exists>p \<in> set (progress db). user_id p = u_id u \<and> is_solved p = 1
                           \<and> level p = v})
         \<and> tiebreak_ts r =
             (if {t. \<exists>p \<in> set (progress db). user_id p = u_id u \<and> is_solved p = 1
                       \<and> level p = solved_levels r \<and> solved_at p = Some t} = {}
              then None
              else Some (Min {t. \<exists>p \<in> set (progress db). user_id p = u_id u \<and> is_solved p = 1
                       \<and> level p = solved_levels r \<and> solved_at p = Some t})))"
proof (intro conjI ballI)
  show "length (leaderboard db) \<le> 100"
    by (simp add: leaderboard_def)
next
  fix r assume "r \<in> set (leaderboard db)"
  with set_leaderboard obtain u where u: "u \<in> set (users db)" and r: "r = board_row_of db u"
    by blast
  have "lb_username r = username u"
    unfolding r by (simp add: board_row_of_def)
  with u show "\<exists>u \<in> set (users db).
         lb_username r = username u
         \<and> solved_levels r =
             (if {v. \<exists>p \<in> set (progress db). user_id p = u_id u \<and> is_solved p = 1 \<and> level p = v} = {}
              then 0
              else Max {v. \<exists>p \<in> set (progress db). user_id p = u_id u \<and> is_solved p = 1
                           \<and> level p = v})
         \<and> tiebreak_ts r =
             (if {t. \<exists>p \<in> set (progress db). user_id p = u_id u \<and> is_solved p = 1
                       \<and> level p = solved_levels r \<and> solved_at p = Some t} = {}
              then None
              else Some (Min {t. \<exists>p \<in> set (progress db). user_id p = u_id u \<and> is_solved p = 1
                       \<and> level p = solved_levels r \<and> solved_at p = Some t}))"
    unfolding r using solved_levels_char [of db u] tiebreak_ts_char [of db u] by blast
qed

text \<open>The first entry of the leaderboard of the four users is bob's.\<close>

theorem leaderboard_entries_witness:
  "length (leaderboard board_store) \<le> 100
   \<and> length (leaderboard board_store) = 4
   \<and> (\<exists>u \<in> set (users board_store).
         lb_username (leaderboard board_store ! 0) = username u)
   \<and> leaderboard board_store ! 0 = \<lparr>lb_username = ''bob'', solved_levels = 3, tiebreak_ts = Some 5\<rparr>"
proof -
  have first: "leaderboard board_store ! 0 \<in> set (leaderboard board_store)"
      "length (leaderboard board_store) = 4"
      "leaderboard board_store ! 0 = \<lparr>lb_username = ''bob'', solved_levels = 3, tiebreak_ts = Some 5\<rparr>"
    unfolding board_example by simp_all
  from leaderboard_entries [of board_store] first(1)
  have "length (leaderboard board_store) \<le> 100"
     "\<exists>u \<in> set (users board_store). lb_username (leaderboard board_store ! 0) = username u"
    by blast+
  with first show ?thesis by simp
qed

lemma board_le_explicit:
  "board_le a b \<longleftrightarrow>
     solved_levels a > solved_levels b
     \<or> (solved_levels a = solved_levels b
        \<and> (case (tiebreak_ts a, tiebreak_ts b) of
              (Some x, Some y) \<Rightarrow> x < y \<or> (x = y \<and> lb_username a \<le> lb_username b)
            | (Some x, None) \<Rightarrow> True
            | (None, Some y) \<Rightarrow> False
            | (None, None) \<Rightarrow> lb_username a \<le> lb_username b))"
  by (cases "tiebreak_ts a"; cases "tiebreak_ts b") (simp_all add: board_le_def)

lemma progress_unique_row:
  assumes "progress_unique db" and "p \<in> set (progress db)" and "q \<in> set (progress db)"
    and "user_id p = user_id q" and "level p = level q"
  shows "p = q"
proof -
  from assms(1) have "inj_on (\<lambda>p. (user_id p, level p)) (set (progress db))"
    unfolding progress_unique_def by (simp add: distinct_map)
  with assms(2-5) show ?thesis
    by (auto dest: inj_onD)
qed

lemma finite_solved_levels:
  "finite {v. \<exists>p \<in> set (progress db). user_id p = uid \<and> is_solved p = 1 \<and> level p = v}"
proof -
  have "{v. \<exists>p \<in> set (progress db). user_id p = uid \<and> is_solved p = 1 \<and> level p = v}
        \<subseteq> level ` set (progress db)"
    by auto
  then show ?thesis
    by (rule finite_subset) simp
qed

lemma solved_levels_highestSolved:
  assumes ok: "store_ok db"
  shows "solved_levels (board_row_of db u) = highestSolved (select_progress db (u_id u))"
proof -
  let ?S = "{v. \<exists>p \<in> set (progress db). user_id p = u_id u \<and> is_solved p = 1 \<and> level p = v}"
  let ?hs = "highestSolved (select_progress db (u_id u))"
  from ok have flags: "\<And>p. p \<in> set (progress db) \<Longrightarrow> is_solved p \<noteq> 0 \<Longrightarrow> is_solved p = 1"
    and lv: "\<And>p. p \<in> set (progress db) \<Longrightarrow> 1 \<le> level p"
    unfolding store_ok_def flags_ok_def seeded_def by auto
  have ge: "k \<le> ?hs \<longleftrightarrow> k \<le> 0 \<or> (\<exists>v \<in> ?S. k \<le> v)" for k
    unfolding highestSolved_ge_iff set_select_progress using flags by fastforce
  show ?thesis
  proof (cases "?S = {}")
    case True
    with ge [of ?hs] have "?hs \<le> 0" by simp
    with highestSolved_nonneg [of "select_progress db (u_id u)"] have "?hs = 0" by simp
    moreover have "solved_levels (board_row_of db u) = 0"
      unfolding solved_levels_char using True by (rule if_P)
    ultimately show ?thesis by simp
  next
    case False
    let ?m = "Max ?S"
    from False have m: "?m \<in> ?S"
      using finite_solved_levels by (intro Max_in)
    then obtain pm where pm: "pm \<in> set (progress db)" "level pm = ?m"
      by blast
    from lv [OF pm(1)] have "1 \<le> ?m"
      unfolding pm(2) .
    from m ge [of ?m] have "?m \<le> ?hs" by blast
    moreover have "?hs \<le> ?m"
    proof -
      from ge [of ?hs] consider "?hs \<le> 0" | v where "v \<in> ?S" "?hs \<le> v" by auto
      then show ?thesis
      proof cases
        case 1
        with \<open>1 \<le> ?m\<close> show ?thesis by simp
      next
        case 2
        from 2(1) have "v \<le> ?m"
          using finite_solved_levels by (intro Max_ge)
        with 2(2) show ?thesis by simp
      qed
    qed
    ultimately have "?m = ?hs" by simp
    moreover have "solved_levels (board_row_of db u) = ?m"
      unfolding solved_levels_char using False by (rule if_not_P)
    ultimately show ?thesis by simp
  qed
qed

lemma tiebreak_ts_highestSolved:
  assumes ok: "store_ok db"
  shows "(highestSolved (select_progress db (u_id u)) = 0 \<longrightarrow>
            tiebreak_ts (board_row_of db u) = None)
    \<and> (highestSolved (select_progress db (u_id u)) \<noteq> 0 \<longrightarrow>
          (\<exists>p \<in> set (progress db). user_id p = u_id u
              \<and> level p = highestSolved (select_progress db (u_id u))
              \<and> is_solved p = 1 \<and> solved_at p \<noteq> None
              \<and> tiebreak_ts (board_row_of db u) = solved_at p))"
proof -
  let ?S = "{v. \<exists>p \<in> set (progress db). user_id p = u_id u \<and> is_solved p = 1 \<and> level p = v}"
  let ?hs = "highestSolved (select_progress db (u_id u))"
  let ?T = "{t. \<exists>p \<in> set (progress db). user_id p = u_id u \<and> is_solved p = 1
               \<and> level p = ?hs \<and> solved_at p = Some t}"
  note sl = solved_levels_highestSolved [OF ok, of u]
  have tb: "tiebreak_ts (board_row_of db u) = (if ?T = {} then None else Some (Min ?T))"
    using tiebreak_ts_char [of db u] unfolding sl .
  from ok have lv: "\<And>p. p \<in> set (progress db) \<Longrightarrow> 1 \<le> level p"
    and at: "\<And>p. p \<in> set (progress db) \<Longrightarrow> is_solved p = 1 \<Longrightarrow> solved_at p \<noteq> None"
    and uniq: "progress_unique db"
    unfolding store_ok_def flags_ok_def seeded_def by auto
  show ?thesis
  proof (intro conjI impI)
    assume zero: "?hs = 0"
    have "?T = {}"
    proof (rule ccontr)
      assume "?T \<noteq> {}"
      then obtain p where "p \<in> set (progress db)" "level p = ?hs" by blast
      with lv [of p] zero show False by simp
    qed
    then show "tiebreak_ts (board_row_of db u) = None"
      unfolding tb by (rule if_P)
  next
    assume pos: "?hs \<noteq> 0"
    have "?S \<noteq> {}"
    proof
      assume "?S = {}"
      then have "solved_levels (board_row_of db u) = 0"
        unfolding solved_levels_char by (rule if_P)
      with sl pos show False by simp
    qed
    then have "Max ?S \<in> ?S"
      using finite_solved_levels by (intro Max_in)
    moreover have "solved_levels (board_row_of db u) = Max ?S"
      unfolding solved_levels_char using \<open>?S \<noteq> {}\<close> by (rule if_not_P)
    with sl have "Max ?S = ?hs" by simp
    ultimately obtain p where p: "p \<in> set (progress db)" "user_id p = u_id u"
        "is_solved p = 1" "level p = ?hs"
      by auto
    from at [OF p(1,3)] obtain t where t: "solved_at p = Some t" by auto
    have "?T = {t}"
    proof (intro set_eqI iffI)
      fix t' assume "t' \<in> ?T"
      then obtain q where q: "q \<in> set (progress db)" "user_id q = u_id u" "level q = ?hs"
          "solved_at q = Some t'"
        by blast
      from progress_unique_row [OF uniq p(1) q(1)] p q have "p = q" by simp
      with t q(4) show "t' \<in> {t}" by simp
    next
      fix t' assume "t' \<in> {t}"
      with p t show "t' \<in> ?T" by auto
    qed
    then have "tiebreak_ts (board_row_of db u) = solved_at p"
      unfolding tb t by simp
    with p t show "\<exists>p \<in> set (progress db). user_id p = u_id u \<and> level p = ?hs
              \<and> is_solved p = 1 \<and> solved_at p \<noteq> None
              \<and> tiebreak_ts (board_row_of db u) = solved_at p"
      by auto
  qed
qed

lemma store_ok_board_store: "store_ok board_store"
  by code_simp

lemma store_ok_empty_store: "store_ok empty_store"
  by (simp add: store_ok_def empty_store_def users_unique_def progress_unique_def
        progress_references_users_def seeded_def flags_ok_def)

text \<open>
  Claim C4. The leaderboard is the first 100 rows of a list that holds the row of every
  user once and is ordered by solved levels, descending; then by tie-break time,
  ascending, rows without a time last; then by username, ascending. On a store that
  satisfies the constraints of the schema and of the handlers, the solved levels of a user
  are the highest solved level, the tie-break time is absent when that level is 0, and is
  otherwise the solve time of the user's record for that level. For the four users of the
  example the order is bob (B), alice (A), amy (D), zara (C).
\<close>

theorem leaderboard_order:
  "(\<exists>rows. mset rows = mset (map (board_row_of db) (users db))
       \<and> sorted_wrt (\<lambda>a b. solved_levels a > solved_levels b
            \<or> (solved_levels a = solved_levels b
               \<and> (case (tiebreak_ts a, tiebreak_ts b) of
                     (Some x, Some y) \<Rightarrow> x < y \<or> (x = y \<and> lb_username a \<le> lb_username b)
                   | (Some x, None) \<Rightarrow> True
                   | (None, Some y) \<Rightarrow> False
                   | (None, None) \<Rightarrow> lb_username a \<le> lb_username b))) rows
       \<and> leaderboard db = take 100 rows)
   \<and> (store_ok db \<longrightarrow>
        (\<forall>u \<in> set (users db).
           lb_username (board_row_of db u) = username u
           \<and> solved_levels (board_row_of db u) = highestSolved (select_progress db (u_id u))
           \<and> (highestSolved (select_progress db (u_id u)) = 0 \<longrightarrow>
                tiebreak_ts (board_row_of db u) = None)
           \<and> (highestSolved (select_progress db (u_id u)) \<noteq> 0 \<longrightarrow>
                (\<exists>p \<in> set (progress db). user_id p = u_id u
                    \<and> level p = highestSolved (select_progress db (u_id u))
                    \<and> is_solved p = 1 \<and> solved_at p \<noteq> None
                    \<and> tiebreak_ts (board_row_of db u) = solved_at p))))
   \<and> map lb_username (leaderboard board_store) = [''bob'', ''alice'', ''amy'', ''zara'']"
proof (intro conjI impI ballI)
  let ?ord = "\<lambda>a b. solved_levels a > solved_levels b
            \<or> (solved_levels a = solved_levels b
               \<and> (case (tiebreak_ts a, tiebreak_ts b) of
                     (Some x, Some y) \<Rightarrow> x < y \<or> (x = y \<and> lb_username a \<le> lb_username b)
                   | (Some x, None) \<Rightarrow> True
                   | (None, Some y) \<Rightarrow> False
                   | (None, None) \<Rightarrow> lb_username a \<le> lb_username b))"
  let ?rows = "order_by board_le (map (board_row_of db) (users db))"
  have eq: "board_le = ?ord"
    by (intro ext) (rule board_le_explicit)
  have "sorted_wrt board_le ?rows"
    using board_le_total board_le_trans by (rule sorted_order_by)
  then have "sorted_wrt ?ord ?rows"
    unfolding eq .
  moreover have "mset ?rows = mset (map (board_row_of db) (users db))"
    by (rule mset_order_by)
  moreover have "leaderboard db = take 100 ?rows"
    by (simp add: leaderboard_def)
  ultimately show "\<exists>rows. mset rows = mset (map (board_row_of db) (users db))
       \<and> sorted_wrt ?ord rows \<and> leaderboard db = take 100 rows"
    by blast
next
  fix u :: user_row
  show "lb_username (board_row_of db u) = username u"
    by (simp add: board_row_of_def)
next
  fix u :: user_row assume "store_ok db"
  then show "solved_levels (board_row_of db u) = highestSolved (select_progress db (u_id u))"
    by (rule solved_levels_highestSolved)
next
  fix u :: user_row assume "store_ok db" and "highestSolved (select_progress db (u_id u)) = 0"
  with tiebreak_ts_highestSolved [of db u] show "tiebreak_ts (board_row_of db u) = None"
    by blast
next
  fix u :: user_row assume "store_ok db" and "highestSolved (select_progress db (u_id u)) \<noteq> 0"
  with tiebreak_ts_highestSolved [of db u]
  show "\<exists>p \<in> set (progress db). user_id p = u_id u
                    \<and> level p = highestSolved (select_progress db (u_id u))
                    \<and> is_solved p = 1 \<and> solved_at p \<noteq> None
                    \<and> tiebreak_ts (board_row_of db u) = solved_at p"
    by blast
next
  show "map lb_username (leaderboard board_store) = [''bob'', ''alice'', ''amy'', ''zara'']"
    unfolding board_example by simp
qed

text \<open>Alice's and zara's rows in the store of the four users.\<close>

theorem leaderboard_order_witness:
  "store_ok board_store
   \<and> highestSolved (select_progress board_store ''a'') = 3
   \<and> solved_levels (board_row_of board_store (users board_store ! 0)) = 3
   \<and> tiebreak_ts (board_row_of board_store (users board_store ! 0)) = Some 10
   \<and> highestSolved (select_progress board_store ''c'') = 0
   \<and> tiebreak_ts (board_row_of board_store (users board_store ! 2)) = None
   \<and> map lb_username (leaderboard board_store) = [''bob'', ''alice'', ''amy'', ''zara'']"
proof -
  have users: "users board_store ! 0 \<in> set (users board_store)"
      "users board_store ! 2 \<in> set (users board_store)"
      "u_id (users board_store ! 0) = ''a''" "u_id (users board_store ! 2) = ''c''"
    by (simp_all add: board_store_def)
  have hs: "highestSolved (select_progress board_store ''a'') = 3"
      "highestSolved (select_progress board_store ''c'') = 0"
    by code_simp+
  have ts: "tiebreak_ts (board_row_of board_store (users board_store ! 0)) = Some 10"
    by code_simp
  from leaderboard_order [of board_store] store_ok_board_store users(1,2)
  have "solved_levels (board_row_of board_store (users board_store ! 0))
          = highestSolved (select_progress board_store (u_id (users board_store ! 0)))"
     "highestSolved (select_progress board_store (u_id (users board_store ! 2))) = 0 \<longrightarrow>
        tiebreak_ts (board_row_of board_store (users board_store ! 2)) = None"
     "map lb_username (leaderboard board_store) = [''bob'', ''alice'', ''amy'', ''zara'']"
    by blast+
  with users hs ts store_ok_board_store show ?thesis
    by simp
qed

section \<open>The constraints are kept\<close>

text \<open>
  Every handler keeps the constraints of the schema and the seeding of the progress rows,
  and the empty store has them: they hold in every store the handlers can produce.
\<close>

lemma keys_set_solved:
  "map (\<lambda>p. (user_id p, level p)) (progress (set_solved db now uid k))
   = map (\<lambda>p. (user_id p, level p)) (progress db)"
  unfolding progress_set_solved by (induction "progress db") simp_all

lemma flags_ok_set_solved:
  assumes "flags_ok db"
  shows "flags_ok (set_solved db now uid k)"
  unfolding flags_ok_def
proof
  fix p assume "p \<in> set (progress (set_solved db now uid k))"
  then obtain q where q: "q \<in> set (progress db)"
      "p = (if user_id q = uid \<and> level q = k
            then q\<lparr>is_solved := 1, solved_at := Some now\<rparr> else q)"
    unfolding progress_set_solved set_map by (rule imageE)
  from assms q(1) have old: "(is_solved q = 0 \<or> is_solved q = 1)
      \<and> (is_solved q = 1 \<longrightarrow> solved_at q \<noteq> None)"
    unfolding flags_ok_def by blast
  show "(is_solved p = 0 \<or> is_solved p = 1) \<and> (is_solved p = 1 \<longrightarrow> solved_at p \<noteq> None)"
  proof (cases "user_id q = uid \<and> level q = k")
    case True
    with q(2) show ?thesis by simp
  next
    case False
    with q(2) old show ?thesis by simp
  qed
qed

lemma user_ids_set_solved:
  "map user_id (progress (set_solved db now uid k)) = map user_id (progress db)"
  unfolding progress_set_solved by (induction "progress db") simp_all

lemma levels_set_solved:
  "map level (progress (set_solved db now uid k)) = map level (progress db)"
  unfolding progress_set_solved by (induction "progress db") simp_all

lemma store_ok_keys:
  "store_ok db \<longleftrightarrow>
     users_unique db
     \<and> distinct (map (\<lambda>p. (user_id p, level p)) (progress db))
     \<and> set (map user_id (progress db)) \<subseteq> set (map u_id (users db))
     \<and> (\<forall>u \<in> set (users db). \<forall>i \<in> {1..int (length LEVELS)}.
           (u_id u, i) \<in> set (map (\<lambda>p. (user_id p, level p)) (progress db)))
     \<and> set (map level (progress db)) \<subseteq> {1..int (length LEVELS)}
     \<and> flags_ok db"
proof -
  have "progress_references_users db
      \<longleftrightarrow> set (map user_id (progress db)) \<subseteq> set (map u_id (users db))"
    unfolding progress_references_users_def by auto
  moreover have "(\<forall>p \<in> set (progress db). 1 \<le> level p \<and> level p \<le> int (length LEVELS))
      \<longleftrightarrow> set (map level (progress db)) \<subseteq> {1..int (length LEVELS)}"
    by auto
  ultimately show ?thesis
    unfolding store_ok_def progress_unique_def seeded_def by blast
qed

lemma store_ok_set_solved:
  assumes "store_ok db"
  shows "store_ok (set_solved db now uid k)"
  using assms flags_ok_set_solved [of db now uid k]
  unfolding store_ok_keys keys_set_solved user_ids_set_solved levels_set_solved
    users_unique_def set_solved_users
  by blast

lemma store_ok_submitAnswer:
  assumes "store_ok db"
  shows "store_ok (snd (submitAnswer db sess n ans now))"
  using submitAnswer_store [of db sess n ans now] assms
  by (auto simp: store_ok_set_solved)


lemma store_ok_register:
  assumes ok: "store_ok db"
  shows "store_ok (snd (register db uname password new_id hash now))"
proof -
  let ?u = "\<lparr>u_id = new_id, username = uname, password_hash = hash, created_at = now\<rparr>"
  let ?rows = "map (\<lambda>i. \<lparr>user_id = new_id, level = i, is_solved = 0, solved_at = None\<rparr>)
                   [1..int (length LEVELS)]"
  let ?db' = "\<lparr>users = users db @ [?u], progress = progress db @ ?rows\<rparr>"
  from ok have fk: "progress_references_users db"
    by (simp add: store_ok_def)
  from register_cases [OF fk, of uname password new_id hash now]
  consider "snd (register db uname password new_id hash now) = db"
    | "new_id \<notin> set (map u_id (users db))" "uname \<notin> set (map username (users db))"
      "snd (register db uname password new_id hash now) = ?db'"
    by auto
  then show ?thesis
  proof cases
    case 1
    with ok show ?thesis by simp
  next
    case 2
    note old = ok [unfolded store_ok_keys users_unique_def]
    have keys: "map (\<lambda>p. (user_id p, level p)) ?rows
        = map (\<lambda>i. (new_id, i)) [1..int (length LEVELS)]"
      by simp
    have ids: "map user_id ?rows = map (\<lambda>i. new_id) [1..int (length LEVELS)]"
      and levels: "map level ?rows = [1..int (length LEVELS)]"
      by (simp_all add: map_idI)
    have "users_unique ?db'"
      using old 2(1,2) by (simp add: users_unique_def)
    moreover have "distinct (map (\<lambda>p. (user_id p, level p)) (progress ?db'))"
    proof -
      have "distinct (map (\<lambda>i. (new_id, i)) [1..int (length LEVELS)])"
        by (simp add: distinct_map inj_on_def)
      moreover have "set (map (\<lambda>p. (user_id p, level p)) (progress db))
          \<inter> set (map (\<lambda>i. (new_id, i)) [1..int (length LEVELS)]) = {}"
        using old 2(1) by auto
      ultimately show ?thesis
        using old by (simp add: keys del: map_map)
    qed
    moreover have "set (map user_id (progress ?db')) \<subseteq> set (map u_id (users ?db'))"
      using old by (auto simp: ids)
    moreover have "\<forall>u \<in> set (users ?db'). \<forall>i \<in> {1..int (length LEVELS)}.
           (u_id u, i) \<in> set (map (\<lambda>p. (user_id p, level p)) (progress ?db'))"
    proof (intro ballI)
      fix u i assume u: "u \<in> set (users ?db')" and i: "i \<in> {1..int (length LEVELS)}"
      from u consider "u \<in> set (users db)" | "u = ?u" by auto
      then show "(u_id u, i) \<in> set (map (\<lambda>p. (user_id p, level p)) (progress ?db'))"
      proof cases
        case 1
        with old i have "(u_id u, i) \<in> set (map (\<lambda>p. (user_id p, level p)) (progress db))"
          by blast
        then show ?thesis by simp
      next
        case 2
        from i have "(new_id, i) \<in> set (map (\<lambda>i. (new_id, i)) [1..int (length LEVELS)])"
          by simp
        with 2 show ?thesis
          by (simp add: keys del: map_map)
      qed
    qed
    moreover have "set (map level (progress ?db')) \<subseteq> {1..int (length LEVELS)}"
      using old by (simp add: levels del: map_map)
    moreover have "flags_ok ?db'"
      using old by (auto simp: flags_ok_def)
    ultimately have "store_ok ?db'"
      unfolding store_ok_keys by blast
    with 2(3) show ?thesis by simp
  qed
qed

lemma store_ok_step: "store_ok db \<Longrightarrow> store_ok (step db req)"
  by (cases req) (simp_all add: store_ok_register store_ok_submitAnswer)

lemma store_ok_run: "store_ok db \<Longrightarrow> store_ok (run db reqs)"
  by (induction reqs arbitrary: db) (simp_all add: run_def store_ok_step)

lemma store_ok_reachable: "store_ok (run empty_store reqs)"
  using store_ok_empty_store by (rule store_ok_run)

section \<open>An absent answer\<close>

text \<open>
  No expected answer has an empty canonical form, so a submission without an answer for a
  valid, unlocked level is answered \<^verbatim>\<open>correct = false\<close> and changes nothing.
\<close>

lemma expected_answers_nonempty:
  "\<forall>l \<in> set LEVELS. norm (Some (JStr (answer l))) \<noteq> Inr []"
  by code_simp

lemma no_answer_is_incorrect:
  assumes "1 \<le> k" and "k \<le> int (length LEVELS)"
    and "k \<le> highestSolved (select_progress db uid) + 1"
  shows "submitAnswer db (Some (uid, un)) (Integral k) None now = (Inr False, db)"
proof -
  have none: "norm None = Inr []"
    by (simp add: norm_falsy)
  from assms(1,2) have "LEVELS ! nat (k - 1) \<in> set LEVELS"
    by (intro nth_mem) auto
  with expected_answers_nonempty
  have "norm None \<noteq> norm (Some (JStr (answer (LEVELS ! nat (k - 1)))))"
    unfolding none by metis
  with assms none show ?thesis
    by (intro submitAnswer_incorrect)
qed

end
